theory Spec2Isabelle
  imports Main
begin

section \<open>The service host of package core (core/service_core.go)\<close>

text \<open>
  The file declares the interface \<^verbatim>\<open>ServiceHost\<close>, the embeddable struct
  \<^verbatim>\<open>ServiceHostContainer\<close> with its method \<^verbatim>\<open>SetContainer\<close>, and the struct
  \<^verbatim>\<open>serviceCore\<close> with ten methods on the pointer receiver \<^verbatim>\<open>*serviceCore\<close>.

  Go values are modelled as follows.
  \<^item> A pointer is \<open>addr option\<close>: \<open>None\<close> is \<^verbatim>\<open>nil\<close>, \<open>Some a\<close> points to the object at
    address \<open>a\<close> of the store. Go is garbage collected, so a non-nil pointer always has
    an object: the store is a total function on addresses.
  \<^item> A value of an interface type declared and implemented outside this file
    (\<^verbatim>\<open>tally.Scope\<close>, \<^verbatim>\<open>Observer\<close>, \<^verbatim>\<open>config.ConfigurationProvider\<close>, \<^verbatim>\<open>ulog.Log\<close>) is \<^verbatim>\<open>nil\<close>
    or a reference to an object; equality of two such values is equality of the
    references. The file never calls a method of such a value.
  \<^item> A map value (\<^verbatim>\<open>map[string]interface{}\<close>) is \<^verbatim>\<open>nil\<close> or a reference to the table.
  \<^item> A method on a pointer receiver takes the receiver and the store; it returns a
    \<open>fault\<close> where the Go runtime stops the goroutine, and its result (with the new
    store, when it writes) otherwise.
\<close>

subsection \<open>References and external values\<close>

type_synonym addr = nat

datatype tally_Scope = ScopeRef addr

datatype Observer = ObserverRef addr

datatype ConfigurationProvider = ProviderRef addr

datatype ulog_Log = LogRef addr

datatype items_map = MapRef addr

text \<open>\<^verbatim>\<open>tally.NullStatsReporter\<close> is a package variable of \<^verbatim>\<open>tally\<close>; any other reporter is
  a reference.\<close>

datatype StatsReporter = NullStatsReporter | ReporterRef addr

text \<open>\<^verbatim>\<open>time.Second\<close>, a \<^verbatim>\<open>time.Duration\<close>: nanoseconds.\<close>

definition Second :: int where
  "Second = 1000000000"

text \<open>What \<^verbatim>\<open>tally.NewRootScope(prefix, tags, reporter, interval)\<close> is given: the scope
  object keeps its four arguments. The tags are a \<^verbatim>\<open>map[string]string\<close>, \<open>None\<close> for
  \<^verbatim>\<open>nil\<close>.\<close>

record scope_obj =
  prefix :: string
  tags :: "(string \<times> string) list option"
  reporter :: StatsReporter
  interval :: int

subsection \<open>The structs\<close>

text \<open>Modelled from the spec: \<^verbatim>\<open>serviceConfig\<close>, which is declared in another file of the
  package. These are the four fields that service_core.go reads, with the types its
  accessors return; the spec calls them name, description, owner and roles. A
  \<^verbatim>\<open>[]string\<close> is the list of its elements.\<close>

record serviceConfig =
  ServiceName :: string
  ServiceDescription :: string
  ServiceOwner :: string
  ServiceRoles :: "string list"

text \<open>\<^verbatim>\<open>sync.Mutex\<close>: its zero value is unlocked.\<close>

datatype Mutex = Unlocked | Locked

text \<open>\<^verbatim>\<open>type serviceCore struct\<close> (lines 63-74). \<^verbatim>\<open>ServiceState\<close> and
  \<^verbatim>\<open>ulog.Configuration\<close> are declared elsewhere: they are the type parameters \<open>'st\<close> and
  \<open>'lc\<close>.\<close>

record ('st, 'lc) serviceCore =
  standardConfig :: serviceConfig
  roles :: "string list"
  state :: 'st
  configProvider :: "ConfigurationProvider option"
  scopeMux :: Mutex
  scope :: "tally_Scope option"
  observer :: "Observer option"
  items :: "items_map option"
  logConfig :: 'lc
  log :: "ulog_Log option"

text \<open>A value of the interface type \<^verbatim>\<open>ServiceHost\<close>: the \<^verbatim>\<open>nil\<close> interface (\<open>None\<close>) or
  a \<^verbatim>\<open>*serviceCore\<close>, the one implementation (line 76), which may itself be a nil
  pointer.\<close>

type_synonym ServiceHost = "addr option option"

text \<open>\<^verbatim>\<open>type ServiceHostContainer struct { ServiceHost }\<close> (lines 48-50).\<close>

record ServiceHostContainer =
  ServiceHost :: ServiceHost

subsection \<open>The store\<close>

record ('st, 'lc) store =
  cores :: "addr \<Rightarrow> ('st, 'lc) serviceCore"
  containers :: "addr \<Rightarrow> ServiceHostContainer"
  scopes :: "scope_obj list"

definition update_core ::
  "addr \<Rightarrow> (('st, 'lc) serviceCore \<Rightarrow> ('st, 'lc) serviceCore) \<Rightarrow> ('st, 'lc) store \<Rightarrow> ('st, 'lc) store" where
  "update_core a f h = h\<lparr>cores := (cores h)(a := f (cores h a))\<rparr>"

datatype fault = NilDereference | Deadlock | UnlockOfUnlockedMutex

text \<open>\<^verbatim>\<open>tally.NewRootScope\<close> belongs to the tally library. It allocates: the new scope is
  the next free address of the scope store, and differs from every scope made before.\<close>

definition NewRootScope ::
  "string \<Rightarrow> (string \<times> string) list option \<Rightarrow> StatsReporter \<Rightarrow> int \<Rightarrow> ('st, 'lc) store
    \<Rightarrow> tally_Scope \<times> ('st, 'lc) store" where
  "NewRootScope p t r i h =
     (ScopeRef (length (scopes h)),
      h\<lparr>scopes := scopes h @ [\<lparr>prefix = p, tags = t, reporter = r, interval = i\<rparr>]\<rparr>)"

text \<open>\<^verbatim>\<open>sync.Mutex\<close> as one goroutine sees it: \<^verbatim>\<open>Lock\<close> on a locked mutex waits for another
  goroutine; with none to release it the runtime stops with a deadlock. \<^verbatim>\<open>Unlock\<close> of
  an unlocked mutex is a fatal error.\<close>

definition Lock :: "Mutex \<Rightarrow> fault + Mutex" where
  "Lock m = (case m of Unlocked \<Rightarrow> Inr Locked | Locked \<Rightarrow> Inl Deadlock)"

definition Unlock :: "Mutex \<Rightarrow> fault + Mutex" where
  "Unlock m = (case m of Locked \<Rightarrow> Inr Unlocked | Unlocked \<Rightarrow> Inl UnlockOfUnlockedMutex)"

subsection \<open>The methods of \<^verbatim>\<open>*serviceCore\<close> (lines 78-131)\<close>

definition serviceCore_Name :: "addr option \<Rightarrow> ('st, 'lc) store \<Rightarrow> fault + string" where
  "serviceCore_Name s h =
     (case s of None \<Rightarrow> Inl NilDereference
      | Some a \<Rightarrow> Inr (ServiceName (standardConfig (cores h a))))"

definition serviceCore_Description :: "addr option \<Rightarrow> ('st, 'lc) store \<Rightarrow> fault + string" where
  "serviceCore_Description s h =
     (case s of None \<Rightarrow> Inl NilDereference
      | Some a \<Rightarrow> Inr (ServiceDescription (standardConfig (cores h a))))"

definition serviceCore_Owner :: "addr option \<Rightarrow> ('st, 'lc) store \<Rightarrow> fault + string" where
  "serviceCore_Owner s h =
     (case s of None \<Rightarrow> Inl NilDereference
      | Some a \<Rightarrow> Inr (ServiceOwner (standardConfig (cores h a))))"

definition serviceCore_State :: "addr option \<Rightarrow> ('st, 'lc) store \<Rightarrow> fault + 'st" where
  "serviceCore_State s h =
     (case s of None \<Rightarrow> Inl NilDereference
      | Some a \<Rightarrow> Inr (state (cores h a)))"

definition serviceCore_Roles :: "addr option \<Rightarrow> ('st, 'lc) store \<Rightarrow> fault + string list" where
  "serviceCore_Roles s h =
     (case s of None \<Rightarrow> Inl NilDereference
      | Some a \<Rightarrow> Inr (ServiceRoles (standardConfig (cores h a))))"

definition serviceCore_Items :: "addr option \<Rightarrow> ('st, 'lc) store \<Rightarrow> fault + items_map option" where
  "serviceCore_Items s h =
     (case s of None \<Rightarrow> Inl NilDereference
      | Some a \<Rightarrow> Inr (items (cores h a)))"

text \<open>\<^verbatim>\<open>Metrics\<close> (lines 106-119): lock; if the slot is nil, make a scope with the null
  reporter and store it; the result is the slot, read before the deferred unlock
  runs.\<close>

definition serviceCore_Metrics ::
  "addr option \<Rightarrow> ('st, 'lc) store \<Rightarrow> fault + (tally_Scope option \<times> ('st, 'lc) store)" where
  "serviceCore_Metrics s h =
     (case s of None \<Rightarrow> Inl NilDereference
      | Some a \<Rightarrow>
         (case Lock (scopeMux (cores h a)) of Inl e \<Rightarrow> Inl e
          | Inr mu \<Rightarrow>
             let h1 = update_core a (\<lambda>c. c\<lparr>scopeMux := mu\<rparr>) h;
                 h2 = (if scope (cores h1 a) = None
                       then (case NewRootScope [] None NullStatsReporter Second h1 of
                               (r, h') \<Rightarrow> update_core a (\<lambda>c. c\<lparr>scope := Some r\<rparr>) h')
                       else h1);
                 result = scope (cores h2 a)
             in (case Unlock (scopeMux (cores h2 a)) of Inl e \<Rightarrow> Inl e
                 | Inr mu' \<Rightarrow> Inr (result, update_core a (\<lambda>c. c\<lparr>scopeMux := mu'\<rparr>) h2))))"

definition serviceCore_Observer :: "addr option \<Rightarrow> ('st, 'lc) store \<Rightarrow> fault + Observer option" where
  "serviceCore_Observer s h =
     (case s of None \<Rightarrow> Inl NilDereference
      | Some a \<Rightarrow> Inr (observer (cores h a)))"

definition serviceCore_Config ::
  "addr option \<Rightarrow> ('st, 'lc) store \<Rightarrow> fault + ConfigurationProvider option" where
  "serviceCore_Config s h =
     (case s of None \<Rightarrow> Inl NilDereference
      | Some a \<Rightarrow> Inr (configProvider (cores h a)))"

definition serviceCore_Logger :: "addr option \<Rightarrow> ('st, 'lc) store \<Rightarrow> fault + ulog_Log option" where
  "serviceCore_Logger s h =
     (case s of None \<Rightarrow> Inl NilDereference
      | Some a \<Rightarrow> Inr (log (cores h a)))"

text \<open>The scope object that \<^verbatim>\<open>Metrics\<close> constructs: no prefix, no tags, the null
  reporter, one second.\<close>

definition null_scope :: scope_obj where
  "null_scope = \<lparr>prefix = [], tags = None, reporter = NullStatsReporter, interval = Second\<rparr>"

text \<open>A context as it stands between two calls of one goroutine: a non-nil pointer whose
  mutex is free. The zero value of the mutex is unlocked and \<^verbatim>\<open>Metrics\<close> is the only
  code of the file that locks it.\<close>

definition constructed :: "('st, 'lc) store \<Rightarrow> addr option \<Rightarrow> bool" where
  "constructed h s = (case s of None \<Rightarrow> False | Some a \<Rightarrow> scopeMux (cores h a) = Unlocked)"

subsection \<open>Calling a method by its name\<close>

text \<open>The ten methods declared on \<^verbatim>\<open>*serviceCore\<close>, in the order of the file, and the
  values they return.\<close>

datatype method_name =
  Name | Description | Owner | State | Roles | Items | Metrics | Observer | Config | Logger

datatype 'st val =
  StringVal string
  | RolesVal "string list"
  | StateVal 'st
  | ItemsVal "items_map option"
  | ScopeVal "tally_Scope option"
  | ObserverVal "Observer option"
  | ProviderVal "ConfigurationProvider option"
  | LogVal "ulog_Log option"

text \<open>A method that only reads returns its value and the store as it found it.\<close>

definition reads ::
  "('a \<Rightarrow> 'st val) \<Rightarrow> ('st, 'lc) store \<Rightarrow> fault + 'a \<Rightarrow> fault + ('st val \<times> ('st, 'lc) store)" where
  "reads f h r = (case r of Inl e \<Rightarrow> Inl e | Inr v \<Rightarrow> Inr (f v, h))"

fun serviceCore_call ::
  "method_name \<Rightarrow> addr option \<Rightarrow> ('st, 'lc) store \<Rightarrow> fault + ('st val \<times> ('st, 'lc) store)" where
  "serviceCore_call Name s h = reads StringVal h (serviceCore_Name s h)"
| "serviceCore_call Description s h = reads StringVal h (serviceCore_Description s h)"
| "serviceCore_call Owner s h = reads StringVal h (serviceCore_Owner s h)"
| "serviceCore_call State s h = reads StateVal h (serviceCore_State s h)"
| "serviceCore_call Roles s h = reads RolesVal h (serviceCore_Roles s h)"
| "serviceCore_call Items s h = reads ItemsVal h (serviceCore_Items s h)"
| "serviceCore_call Metrics s h =
     (case serviceCore_Metrics s h of Inl e \<Rightarrow> Inl e | Inr (r, h') \<Rightarrow> Inr (ScopeVal r, h'))"
| "serviceCore_call Observer s h = reads ObserverVal h (serviceCore_Observer s h)"
| "serviceCore_call Config s h = reads ProviderVal h (serviceCore_Config s h)"
| "serviceCore_call Logger s h = reads LogVal h (serviceCore_Logger s h)"

text \<open>The value a call returns, without the store.\<close>

definition returned :: "fault + ('v \<times> 'h) \<Rightarrow> fault + 'v" where
  "returned r = (case r of Inl e \<Rightarrow> Inl e | Inr (v, h) \<Rightarrow> Inr v)"

subsection \<open>The interface and the container (lines 34-56)\<close>

text \<open>The method set of \<^verbatim>\<open>type ServiceHost interface\<close>, in the order of its
  declaration.\<close>

definition ServiceHost_methods :: "method_name list" where
  "ServiceHost_methods =
     [Name, Description, Roles, State, Metrics, Observer, Config, Items, Logger]"

text \<open>A call through a value of the interface type. The result is \<open>None\<close> when the
  interface has no such method: Go rejects that call when it compiles the program.
  On the nil interface the call is a nil dereference.\<close>

definition ServiceHost_call ::
  "method_name \<Rightarrow> ServiceHost \<Rightarrow> ('st, 'lc) store
    \<Rightarrow> (fault + ('st val \<times> ('st, 'lc) store)) option" where
  "ServiceHost_call m sh h =
     (if m \<in> set ServiceHost_methods
      then Some (case sh of None \<Rightarrow> Inl NilDereference | Some s \<Rightarrow> serviceCore_call m s h)
      else None)"

text \<open>\<^verbatim>\<open>func (s *ServiceHostContainer) SetContainer(sh ServiceHost)\<close> (lines 54-56).\<close>

definition SetContainer ::
  "addr option \<Rightarrow> ServiceHost \<Rightarrow> ('st, 'lc) store \<Rightarrow> fault + ('st, 'lc) store" where
  "SetContainer s sh h =
     (case s of None \<Rightarrow> Inl NilDereference
      | Some c \<Rightarrow> Inr (h\<lparr>containers := (containers h)(c := (containers h c)\<lparr>ServiceHost := sh\<rparr>)\<rparr>))"

text \<open>The embedded field promotes the methods of the interface to the container:
  \<^verbatim>\<open>c.Name()\<close> is \<^verbatim>\<open>c.ServiceHost.Name()\<close>. The container has the interface's methods and
  no others of the host.\<close>

definition ServiceHostContainer_call ::
  "method_name \<Rightarrow> addr option \<Rightarrow> ('st, 'lc) store
    \<Rightarrow> (fault + ('st val \<times> ('st, 'lc) store)) option" where
  "ServiceHostContainer_call m s h =
     (case s of
        None \<Rightarrow> (if m \<in> set ServiceHost_methods then Some (Inl NilDereference) else None)
      | Some c \<Rightarrow> ServiceHost_call m (ServiceHost (containers h c)) h)"

subsection \<open>The life of a context\<close>

text \<open>Modelled from the spec: the write of the lifecycle state, which is not in
  service_core.go. The spec has the owning process set the field during lifecycle
  transitions; in Go that is the assignment \<^verbatim>\<open>s.state = v\<close>.\<close>

definition write_state ::
  "addr option \<Rightarrow> 'st \<Rightarrow> ('st, 'lc) store \<Rightarrow> fault + ('st, 'lc) store" where
  "write_state s v h =
     (case s of None \<Rightarrow> Inl NilDereference
      | Some a \<Rightarrow> Inr (update_core a (\<lambda>c. c\<lparr>state := v\<rparr>) h))"

text \<open>What one goroutine does with a context over time: it calls methods, and the owner
  writes the lifecycle state. \<open>run_events\<close> performs a list of such events in order and
  collects the values of the calls; it stops at the first fault.\<close>

datatype 'st event = Call method_name | WriteState 'st

fun run_events ::
  "'st event list \<Rightarrow> addr option \<Rightarrow> ('st, 'lc) store
    \<Rightarrow> fault + ('st val list \<times> ('st, 'lc) store)" where
  "run_events [] s h = Inr ([], h)"
| "run_events (Call m # es) s h =
     (case serviceCore_call m s h of Inl e \<Rightarrow> Inl e
      | Inr (v, h') \<Rightarrow>
         (case run_events es s h' of Inl e \<Rightarrow> Inl e
          | Inr (vs, h'') \<Rightarrow> Inr (v # vs, h'')))"
| "run_events (WriteState v # es) s h =
     (case write_state s v h of Inl e \<Rightarrow> Inl e
      | Inr h' \<Rightarrow> run_events es s h')"

section \<open>Concurrent callers of Metrics\<close>

text \<open>
  Several goroutines call \<^verbatim>\<open>Metrics()\<close> on the same context \<open>a\<close>. Every access to the slot
  is made with the mutex held, so the program has no data race and Go's memory model
  gives it the behaviours of an interleaving of the goroutines' steps. A goroutine is
  at one of these places of lines 110-118:
  \<^item> \<open>AtLock\<close>: before \<^verbatim>\<open>s.scopeMux.Lock()\<close>;
  \<^item> \<open>AtCheck\<close>: before the test \<^verbatim>\<open>s.scope == nil\<close>;
  \<^item> \<open>AtNew\<close>: before the call \<^verbatim>\<open>tally.NewRootScope(...)\<close>;
  \<^item> \<open>AtStore r\<close>: before the assignment of the new scope \<open>r\<close> to \<^verbatim>\<open>s.scope\<close>;
  \<^item> \<open>AtReturn\<close>: before \<^verbatim>\<open>return s.scope\<close> reads the slot;
  \<^item> \<open>AtUnlock res\<close>: the result is \<open>res\<close>, the deferred \<^verbatim>\<open>Unlock()\<close> is to run;
  \<^item> \<open>Done res\<close>: the call has returned \<open>res\<close>.
\<close>

datatype pc =
  AtLock | AtCheck | AtNew | AtStore tally_Scope | AtReturn
  | AtUnlock "tally_Scope option" | Done "tally_Scope option"

datatype action = Acquire | Check | Construct | Store | Read | Release

text \<open>One step of a goroutine: what it does, where it is next, and the new store.
  \<open>None\<close>: the goroutine cannot move (it waits for the mutex, or it has returned).\<close>

fun thread_step ::
  "addr \<Rightarrow> pc \<Rightarrow> ('st, 'lc) store \<Rightarrow> (action \<times> pc \<times> ('st, 'lc) store) option" where
  "thread_step a AtLock h =
     (case Lock (scopeMux (cores h a)) of
        Inl e \<Rightarrow> None
      | Inr mu \<Rightarrow> Some (Acquire, AtCheck, update_core a (\<lambda>c. c\<lparr>scopeMux := mu\<rparr>) h))"
| "thread_step a AtCheck h =
     Some (Check, if scope (cores h a) = None then AtNew else AtReturn, h)"
| "thread_step a AtNew h =
     (case NewRootScope [] None NullStatsReporter Second h of
        (r, h') \<Rightarrow> Some (Construct, AtStore r, h'))"
| "thread_step a (AtStore r) h =
     Some (Store, AtReturn, update_core a (\<lambda>c. c\<lparr>scope := Some r\<rparr>) h)"
| "thread_step a AtReturn h =
     Some (Read, AtUnlock (scope (cores h a)), h)"
| "thread_step a (AtUnlock res) h =
     (case Unlock (scopeMux (cores h a)) of
        Inl e \<Rightarrow> None
      | Inr mu \<Rightarrow> Some (Release, Done res, update_core a (\<lambda>c. c\<lparr>scopeMux := mu\<rparr>) h))"
| "thread_step a (Done res) h = None"

text \<open>The store, the goroutines, and the steps taken so far, oldest first, each with the
  number of its goroutine.\<close>

record ('st, 'lc) config =
  heap :: "('st, 'lc) store"
  threads :: "pc list"
  trace :: "(nat \<times> action) list"

text \<open>The scheduler picks goroutine \<open>i\<close>. If it cannot move, nothing happens.\<close>

definition step :: "addr \<Rightarrow> nat \<Rightarrow> ('st, 'lc) config \<Rightarrow> ('st, 'lc) config" where
  "step a i c =
     (if i < length (threads c)
      then (case thread_step a (threads c ! i) (heap c) of
              None \<Rightarrow> c
            | Some (act, p, h') \<Rightarrow>
                \<lparr>heap = h', threads = (threads c)[i := p], trace = trace c @ [(i, act)]\<rparr>)
      else c)"

fun interleave :: "addr \<Rightarrow> nat list \<Rightarrow> ('st, 'lc) config \<Rightarrow> ('st, 'lc) config" where
  "interleave a [] c = c"
| "interleave a (i # sched) c = interleave a sched (step a i c)"

text \<open>\<open>n\<close> goroutines about to call, on the store \<open>h\<close>.\<close>

definition start :: "('st, 'lc) store \<Rightarrow> nat \<Rightarrow> ('st, 'lc) config" where
  "start h n = \<lparr>heap = h, threads = replicate n AtLock, trace = []\<rparr>"

text \<open>\<open>precedes x y tr\<close>: after the first \<open>x\<close> of the trace there is a \<open>y\<close>.\<close>

fun precedes :: "'a \<Rightarrow> 'a \<Rightarrow> 'a list \<Rightarrow> bool" where
  "precedes x y [] = False"
| "precedes x y (e # es) = (if e = x then y \<in> set es else precedes x y es)"

text \<open>A goroutine between its \<^verbatim>\<open>Lock\<close> and its \<^verbatim>\<open>Unlock\<close>.\<close>

fun in_cs :: "pc \<Rightarrow> bool" where
  "in_cs AtLock = False"
| "in_cs (Done res) = False"
| "in_cs p = True"

text \<open>What a place of a goroutine says about the slot, when \<open>r0\<close> is the scope that the
  first caller makes.\<close>

fun pc_ok :: "tally_Scope \<Rightarrow> tally_Scope option \<Rightarrow> pc \<Rightarrow> bool" where
  "pc_ok r0 slot AtLock = True"
| "pc_ok r0 slot AtCheck = True"
| "pc_ok r0 slot AtNew = (slot = None)"
| "pc_ok r0 slot (AtStore r) = (slot = None \<and> r = r0)"
| "pc_ok r0 slot AtReturn = (slot = Some r0)"
| "pc_ok r0 slot (AtUnlock res) = (slot = Some r0 \<and> res = Some r0)"
| "pc_ok r0 slot (Done res) = (slot = Some r0 \<and> res = Some r0)"

fun past_store :: "pc \<Rightarrow> bool" where
  "past_store AtReturn = True"
| "past_store (AtUnlock res) = True"
| "past_store (Done res) = True"
| "past_store p = False"

fun is_Done :: "pc \<Rightarrow> bool" where
  "is_Done (Done res) = True"
| "is_Done p = False"

fun at_store :: "pc \<Rightarrow> bool" where
  "at_store (AtStore r) = True"
| "at_store p = False"

text \<open>The steps a goroutine still has to take, at most.\<close>

fun weight :: "pc \<Rightarrow> nat" where
  "weight AtLock = 6"
| "weight AtCheck = 5"
| "weight AtNew = 4"
| "weight (AtStore r) = 3"
| "weight AtReturn = 2"
| "weight (AtUnlock res) = 1"
| "weight (Done res) = 0"

subsection \<open>What holds in every reachable configuration\<close>

text \<open>At most one goroutine is between \<^verbatim>\<open>Lock\<close> and \<^verbatim>\<open>Unlock\<close>, and the mutex is locked
  exactly when one is.\<close>

definition inv_mutex :: "addr \<Rightarrow> ('st, 'lc) config \<Rightarrow> bool" where
  "inv_mutex a c =
     ((\<forall>i<length (threads c). \<forall>j<length (threads c).
         in_cs (threads c ! i) \<and> in_cs (threads c ! j) \<longrightarrow> i = j)
      \<and> scopeMux (cores (heap c) a) =
          (if \<exists>i<length (threads c). in_cs (threads c ! i) then Locked else Unlocked))"

text \<open>Every goroutine is at a place that fits the slot; the scope store has grown by
  the one null scope once a goroutine has constructed it; the slot is empty or holds
  that scope. \<open>S0\<close> is the scope store at the start.\<close>

definition inv_slot :: "addr \<Rightarrow> scope_obj list \<Rightarrow> ('st, 'lc) config \<Rightarrow> bool" where
  "inv_slot a S0 c =
     ((\<forall>i<length (threads c).
         pc_ok (ScopeRef (length S0)) (scope (cores (heap c) a)) (threads c ! i))
      \<and> scopes (heap c) =
          (if scope (cores (heap c) a) = None \<and> \<not> (\<exists>i<length (threads c). at_store (threads c ! i))
           then S0 else S0 @ [null_scope])
      \<and> (scope (cores (heap c) a) = None \<or> scope (cores (heap c) a) = Some (ScopeRef (length S0))))"

text \<open>The trace records where the goroutines are.\<close>

definition inv_trace :: "addr \<Rightarrow> ('st, 'lc) config \<Rightarrow> bool" where
  "inv_trace a c =
     ((\<forall>i. ((i, Acquire) \<in> set (trace c) \<longleftrightarrow> i < length (threads c) \<and> threads c ! i \<noteq> AtLock)
          \<and> ((i, Store) \<in> set (trace c) \<longrightarrow> i < length (threads c) \<and> past_store (threads c ! i))
          \<and> ((i, Release) \<in> set (trace c) \<longleftrightarrow> i < length (threads c) \<and> is_Done (threads c ! i)))
      \<and> (scope (cores (heap c) a) \<noteq> None \<longrightarrow> (\<exists>k. (k, Store) \<in> set (trace c))))"

text \<open>The order of the steps in the trace.\<close>

definition inv_order :: "('st, 'lc) config \<Rightarrow> bool" where
  "inv_order c =
     (\<forall>i j. (i \<noteq> j \<and> (i, Store) \<in> set (trace c) \<and> (j, Acquire) \<in> set (trace c) \<longrightarrow>
               precedes (i, Release) (j, Acquire) (trace c))
          \<and> ((i, Store) \<in> set (trace c) \<and> (i, Release) \<in> set (trace c) \<longrightarrow>
               precedes (i, Store) (i, Release) (trace c))
          \<and> ((j, Check) \<in> set (trace c) \<longrightarrow> precedes (j, Acquire) (j, Check) (trace c))
          \<and> ((j, Read) \<in> set (trace c) \<longrightarrow> precedes (j, Acquire) (j, Read) (trace c))
          \<and> ((i, Store) \<in> set (trace c) \<and> (j, Store) \<in> set (trace c) \<longrightarrow> i = j))"

definition invariant :: "addr \<Rightarrow> scope_obj list \<Rightarrow> ('st, 'lc) config \<Rightarrow> bool" where
  "invariant a S0 c = (inv_mutex a c \<and> inv_slot a S0 c \<and> inv_trace a c \<and> inv_order c)"

section \<open>Contexts and a schedule to run the definitions on\<close>

text \<open>The service of the spec's scenario A, with no scope, observer, provider, items or
  logger; the lifecycle state is a number here.\<close>

definition checkout_core :: "(nat, unit) serviceCore" where
  "checkout_core =
     \<lparr>standardConfig = \<lparr>ServiceName = ''checkout'', ServiceDescription = ''takes orders'',
         ServiceOwner = ''payments'', ServiceRoles = [''writer'', ''api'']\<rparr>,
      roles = [], state = 0, configProvider = None, scopeMux = Unlocked, scope = None,
      observer = None, items = None, logConfig = (), log = None\<rparr>"

definition checkout_store :: "(nat, unit) store" where
  "checkout_store =
     \<lparr>cores = (\<lambda>_. checkout_core), containers = (\<lambda>_. \<lparr>ServiceHost = None\<rparr>), scopes = []\<rparr>"

text \<open>The store after \<^verbatim>\<open>SetContainer\<close> has put the checkout service into the container at
  address 0.\<close>

definition checkout_contained :: "(nat, unit) store" where
  "checkout_contained =
     checkout_store\<lparr>containers := (containers checkout_store)(0 := \<lparr>ServiceHost = Some (Some 0)\<rparr>)\<rparr>"

text \<open>Two callers: goroutine 0 takes the mutex, goroutine 1 tries in vain twice while 0
  initialises the slot, then runs after 0 has released the mutex.\<close>

definition two_callers :: "nat list" where
  "two_callers = [0, Suc 0, 0, 0, Suc 0, 0, 0, 0, Suc 0, Suc 0, Suc 0, Suc 0]"

section \<open>Properties of the methods\<close>

lemma unlock_restores:
  "scopeMux c = Unlocked \<Longrightarrow> c\<lparr>scopeMux := Unlocked\<rparr> = c"
  "scopeMux c = Unlocked \<Longrightarrow> c\<lparr>scope := x, scopeMux := Unlocked\<rparr> = c\<lparr>scope := x\<rparr>"
  by (cases c, simp)+

lemma Metrics_unset:
  assumes "scopeMux (cores h a) = Unlocked" and "scope (cores h a) = None"
  shows "serviceCore_Metrics (Some a) h =
           Inr (Some (ScopeRef (length (scopes h))),
                h\<lparr>cores := (cores h)(a := (cores h a)\<lparr>scope := Some (ScopeRef (length (scopes h)))\<rparr>),
                  scopes := scopes h @ [null_scope]\<rparr>)"
  using assms
  by (simp add: serviceCore_Metrics_def Lock_def Unlock_def NewRootScope_def update_core_def
      null_scope_def Let_def unlock_restores)

lemma Metrics_set:
  assumes "scopeMux (cores h a) = Unlocked" and "scope (cores h a) = Some r"
  shows "serviceCore_Metrics (Some a) h = Inr (Some r, h)"
  using assms
  by (simp add: serviceCore_Metrics_def Lock_def Unlock_def update_core_def Let_def
      unlock_restores)

lemma constructedD: "constructed h (Some a) \<Longrightarrow> scopeMux (cores h a) = Unlocked"
  by (simp add: constructed_def)

lemma checkout_constructed: "constructed checkout_store (Some a)"
  by (simp add: constructed_def checkout_store_def checkout_core_def)

text \<open>
  C1. On a context \<open>a\<close> (a non-nil pointer, mutex free) \<^verbatim>\<open>Metrics()\<close> returns a non-nil
  scope \<open>r\<close>, and \<open>r\<close> is what the slot holds afterwards. If the slot was empty, \<open>r\<close> is a
  new scope object with the null reporter, appended to the scope store. If the slot
  was filled, \<open>r\<close> is the scope it held and the store is unchanged.
\<close>

theorem Metrics_returns_scope:
  assumes "constructed h (Some a)"
  shows "\<exists>r h'. serviceCore_Metrics (Some a) h = Inr (Some r, h')
           \<and> scope (cores h' a) = Some r
           \<and> (scope (cores h a) = None \<longrightarrow>
                r = ScopeRef (length (scopes h)) \<and> scopes h' = scopes h @ [null_scope]
                \<and> reporter (scopes h' ! length (scopes h)) = NullStatsReporter)
           \<and> (scope (cores h a) \<noteq> None \<longrightarrow> scope (cores h a) = Some r \<and> h' = h)"
proof (cases "scope (cores h a)")
  case None
  from Metrics_unset [OF constructedD [OF assms] None] show ?thesis
    using None by (simp add: null_scope_def)
next
  case (Some r)
  from Metrics_set [OF constructedD [OF assms] Some] show ?thesis
    using Some by simp
qed

theorem Metrics_returns_scope_witness:
  "constructed checkout_store (Some 0)
   \<and> scope (cores checkout_store 0) = None
   \<and> (\<exists>h'. serviceCore_Metrics (Some 0) checkout_store = Inr (Some (ScopeRef 0), h')
          \<and> scope (cores h' 0) = Some (ScopeRef 0) \<and> scopes h' = [null_scope])"
proof -
  have c: "constructed checkout_store (Some 0)"
    by (rule checkout_constructed)
  have n: "scope (cores checkout_store 0) = None"
    by (simp add: checkout_store_def checkout_core_def)
  have e: "scopes checkout_store = []"
    by (simp add: checkout_store_def)
  from Metrics_returns_scope [OF c] show ?thesis
    using c n e by auto
qed

lemma reads_Inr: "reads f h r = Inr (v, h') \<Longrightarrow> h' = h"
  by (cases r) (auto simp: reads_def)

lemma Metrics_frame:
  assumes "serviceCore_Metrics (Some a) h = Inr (r, h')"
  shows "cores h' = (cores h)(a := (cores h a)\<lparr>scope := r\<rparr>)"
    and "containers h' = containers h"
    and "scopeMux (cores h a) = Unlocked"
    and "scope (cores h a) = None \<Longrightarrow> scopes h' = scopes h @ [null_scope]"
    and "scope (cores h a) \<noteq> None \<Longrightarrow> h' = h"
proof -
  from assms have u: "scopeMux (cores h a) = Unlocked"
    by (cases "scopeMux (cores h a)") (simp_all add: serviceCore_Metrics_def Lock_def)
  show "scopeMux (cores h a) = Unlocked" by (rule u)
  show "cores h' = (cores h)(a := (cores h a)\<lparr>scope := r\<rparr>)"
  proof (cases "scope (cores h a)")
    case None
    from Metrics_unset [OF u None] assms show ?thesis by auto
  next
    case (Some x)
    from Metrics_set [OF u Some] assms Some show ?thesis by auto
  qed
  show "containers h' = containers h"
  proof (cases "scope (cores h a)")
    case None
    from Metrics_unset [OF u None] assms show ?thesis by auto
  next
    case (Some x)
    from Metrics_set [OF u Some] assms Some show ?thesis by auto
  qed
  show "scopes h' = scopes h @ [null_scope]" if n: "scope (cores h a) = None"
    using Metrics_unset [OF u n] assms by auto
  show "h' = h" if n: "scope (cores h a) \<noteq> None"
  proof -
    from n obtain x where "scope (cores h a) = Some x" by auto
    from Metrics_set [OF u this] assms show ?thesis by auto
  qed
qed

lemma call_not_Metrics:
  "m \<noteq> Metrics \<Longrightarrow> serviceCore_call m s h = Inr (v, h') \<Longrightarrow> h' = h"
  by (cases m) (simp_all add: reads_def split: sum.splits)

lemma call_total:
  assumes "constructed h (Some a)"
  shows "\<exists>v h'. serviceCore_call m (Some a) h = Inr (v, h') \<and> constructed h' (Some a)"
proof (cases "m = Metrics")
  case True
  have u: "scopeMux (cores h a) = Unlocked" using assms by (rule constructedD)
  show ?thesis
  proof (cases "scope (cores h a)")
    case None
    from Metrics_unset [OF u None] True u show ?thesis
      by (simp add: constructed_def)
  next
    case (Some x)
    from Metrics_set [OF u Some] True assms show ?thesis by simp
  qed
next
  case False
  then show ?thesis using assms
    by (cases m)
      (simp_all add: reads_def serviceCore_Name_def serviceCore_Description_def
        serviceCore_Owner_def serviceCore_State_def serviceCore_Roles_def serviceCore_Items_def
        serviceCore_Observer_def serviceCore_Config_def serviceCore_Logger_def)
qed

lemma call_frame:
  assumes "serviceCore_call m (Some a) h = Inr (v, h')"
  shows "\<exists>x. cores h' = (cores h)(a := (cores h a)\<lparr>scope := x\<rparr>)"
    and "containers h' = containers h"
proof -
  show "\<exists>x. cores h' = (cores h)(a := (cores h a)\<lparr>scope := x\<rparr>)"
  proof (cases "m = Metrics")
    case True
    with assms obtain r where "serviceCore_Metrics (Some a) h = Inr (r, h')"
      by (auto split: sum.splits)
    from Metrics_frame(1) [OF this] show ?thesis by blast
  next
    case False
    from call_not_Metrics [OF False assms] have "h' = h" .
    then have "cores h' = (cores h)(a := (cores h a)\<lparr>scope := scope (cores h a)\<rparr>)"
      by simp
    then show ?thesis by blast
  qed
  show "containers h' = containers h"
  proof (cases "m = Metrics")
    case True
    with assms obtain r where "serviceCore_Metrics (Some a) h = Inr (r, h')"
      by (auto split: sum.splits)
    from Metrics_frame(2) [OF this] show ?thesis .
  next
    case False
    from call_not_Metrics [OF False assms] show ?thesis by simp
  qed
qed

lemma write_state_total:
  "constructed h (Some a) \<Longrightarrow>
     \<exists>h'. write_state (Some a) v h = Inr h' \<and> constructed h' (Some a)"
  by (simp add: write_state_def constructed_def update_core_def)

lemma run_events_total:
  "constructed h (Some a) \<Longrightarrow>
     \<exists>vs h'. run_events es (Some a) h = Inr (vs, h') \<and> constructed h' (Some a)"
proof (induction es arbitrary: h)
  case Nil
  then show ?case by simp
next
  case (Cons e es)
  show ?case
  proof (cases e)
    case (Call m)
    from call_total [OF Cons.prems, of m] obtain v h1 where
      c: "serviceCore_call m (Some a) h = Inr (v, h1)" and k: "constructed h1 (Some a)"
      by blast
    from Cons.IH [OF k] obtain vs h2 where
      "run_events es (Some a) h1 = Inr (vs, h2)" "constructed h2 (Some a)" by blast
    with c Call show ?thesis by simp
  next
    case (WriteState v)
    from write_state_total [OF Cons.prems, of v] obtain h1 where
      c: "write_state (Some a) v h = Inr h1" and k: "constructed h1 (Some a)"
      by blast
    from Cons.IH [OF k] obtain vs h2 where
      "run_events es (Some a) h1 = Inr (vs, h2)" "constructed h2 (Some a)" by blast
    with c WriteState show ?thesis by simp
  qed
qed

lemma run_events_frame:
  "run_events es (Some a) h = Inr (vs, h') \<Longrightarrow>
     (\<exists>x y. cores h' = (cores h)(a := (cores h a)\<lparr>scope := x, state := y\<rparr>))
     \<and> containers h' = containers h"
proof (induction es arbitrary: h vs)
  case Nil
  then have "cores h' = (cores h)(a := (cores h a)\<lparr>scope := scope (cores h a), state := state (cores h a)\<rparr>)"
    by simp
  moreover from Nil have "containers h' = containers h" by simp
  ultimately show ?case by blast
next
  case (Cons e es)
  show ?case
  proof (cases e)
    case (Call m)
    with Cons.prems obtain v h1 vs1 where
      c: "serviceCore_call m (Some a) h = Inr (v, h1)"
      and r: "run_events es (Some a) h1 = Inr (vs1, h')"
      by (auto split: sum.splits)
    from call_frame [OF c] obtain x where
      1: "cores h1 = (cores h)(a := (cores h a)\<lparr>scope := x\<rparr>)"
      and 2: "containers h1 = containers h" by blast
    from Cons.IH [OF r] obtain x' y' where
      3: "cores h' = (cores h1)(a := (cores h1 a)\<lparr>scope := x', state := y'\<rparr>)"
      and 4: "containers h' = containers h1" by blast
    from 1 3 have "cores h' = (cores h)(a := (cores h a)\<lparr>scope := x', state := y'\<rparr>)"
      by simp
    with 2 4 show ?thesis by auto
  next
    case (WriteState v)
    with Cons.prems obtain h1 where
      c: "write_state (Some a) v h = Inr h1"
      and r: "run_events es (Some a) h1 = Inr (vs, h')"
      by (auto split: sum.splits)
    from c have 1: "cores h1 = (cores h)(a := (cores h a)\<lparr>state := v\<rparr>)"
      and 2: "containers h1 = containers h"
      by (auto simp: write_state_def update_core_def)
    from Cons.IH [OF r] obtain x' y' where
      3: "cores h' = (cores h1)(a := (cores h1 a)\<lparr>scope := x', state := y'\<rparr>)"
      and 4: "containers h' = containers h1" by blast
    from 1 3 have "cores h' = (cores h)(a := (cores h a)\<lparr>scope := x', state := y'\<rparr>)"
      by simp
    with 2 4 show ?thesis by auto
  qed
qed


lemma call_slot_set:
  assumes "constructed h (Some a)" and "scope (cores h a) = Some r"
  shows "\<exists>v. serviceCore_call m (Some a) h = Inr (v, h) \<and> (\<forall>x. v = ScopeVal x \<longrightarrow> x = Some r)"
proof (cases "m = Metrics")
  case True
  from Metrics_set [OF constructedD [OF assms(1)] assms(2)] True show ?thesis by simp
next
  case False
  then show ?thesis
    by (cases m)
      (simp_all add: reads_def serviceCore_Name_def serviceCore_Description_def
        serviceCore_Owner_def serviceCore_State_def serviceCore_Roles_def serviceCore_Items_def
        serviceCore_Observer_def serviceCore_Config_def serviceCore_Logger_def)
qed

text \<open>
  C2. Once the slot of a context holds a scope \<open>r\<close>, it holds \<open>r\<close> after every history of
  method calls and state writes on the context: the history runs without a fault, every
  \<^verbatim>\<open>Metrics()\<close> call in it returned \<open>r\<close>, no scope object was constructed, and a further
  \<^verbatim>\<open>Metrics()\<close> call returns \<open>r\<close> again and leaves the store as it is.
\<close>

theorem scope_slot_stable:
  assumes "constructed h (Some a)" and "scope (cores h a) = Some r"
  shows "\<exists>vs h'. run_events es (Some a) h = Inr (vs, h')
           \<and> (\<forall>v\<in>set vs. \<forall>x. v = ScopeVal x \<longrightarrow> x = Some r)
           \<and> scope (cores h' a) = Some r \<and> scopes h' = scopes h
           \<and> serviceCore_Metrics (Some a) h' = Inr (Some r, h')"
  using assms
proof (induction es arbitrary: h)
  case Nil
  from Metrics_set [OF constructedD [OF Nil(1)] Nil(2)] Nil show ?case by simp
next
  case (Cons e es)
  show ?case
  proof (cases e)
    case (Call m)
    from call_slot_set [OF Cons.prems, of m] obtain v where
      c: "serviceCore_call m (Some a) h = Inr (v, h)" and v: "\<forall>x. v = ScopeVal x \<longrightarrow> x = Some r"
      by blast
    from Cons.IH [OF Cons.prems] obtain vs h' where
      "run_events es (Some a) h = Inr (vs, h')"
      "\<forall>v\<in>set vs. \<forall>x. v = ScopeVal x \<longrightarrow> x = Some r"
      "scope (cores h' a) = Some r" "scopes h' = scopes h"
      "serviceCore_Metrics (Some a) h' = Inr (Some r, h')" by blast
    with c v Call show ?thesis by simp
  next
    case (WriteState w)
    let ?h1 = "update_core a (\<lambda>c. c\<lparr>state := w\<rparr>) h"
    have k: "constructed ?h1 (Some a)" and n: "scope (cores ?h1 a) = Some r"
      and l: "scopes ?h1 = scopes h"
      using Cons.prems by (simp_all add: constructed_def update_core_def)
    from Cons.IH [OF k n] l WriteState show ?thesis
      by (simp add: write_state_def)
  qed
qed

lemmas accessor_defs =
  reads_def serviceCore_Name_def serviceCore_Description_def serviceCore_Owner_def
  serviceCore_State_def serviceCore_Roles_def serviceCore_Items_def serviceCore_Observer_def
  serviceCore_Config_def serviceCore_Logger_def

lemmas Metrics_defs =
  serviceCore_Metrics_def Lock_def Unlock_def NewRootScope_def update_core_def Let_def

theorem scope_slot_stable_witness:
  "constructed (update_core 0 (\<lambda>c. c\<lparr>scope := Some (ScopeRef 7)\<rparr>) checkout_store) (Some 0)
   \<and> scope (cores (update_core 0 (\<lambda>c. c\<lparr>scope := Some (ScopeRef 7)\<rparr>) checkout_store) 0) =
       Some (ScopeRef 7)
   \<and> returned (run_events [Call Metrics, WriteState 3, Call Name, Call Metrics] (Some 0)
        (update_core 0 (\<lambda>c. c\<lparr>scope := Some (ScopeRef 7)\<rparr>) checkout_store)) =
      Inr [ScopeVal (Some (ScopeRef 7)), StringVal ''checkout'', ScopeVal (Some (ScopeRef 7))]"
proof -
  let ?h = "update_core 0 (\<lambda>c. c\<lparr>scope := Some (ScopeRef 7)\<rparr>) checkout_store"
  let ?es = "[Call Metrics, WriteState 3, Call Name, Call Metrics]"
  have c: "constructed ?h (Some 0)"
    by (simp add: constructed_def update_core_def checkout_store_def checkout_core_def)
  have n: "scope (cores ?h 0) = Some (ScopeRef 7)"
    by (simp add: update_core_def)
  have r: "returned (run_events ?es (Some 0) ?h) =
      Inr [ScopeVal (Some (ScopeRef 7)), StringVal ''checkout'', ScopeVal (Some (ScopeRef 7))]"
    by (simp add: returned_def accessor_defs Metrics_defs write_state_def
        checkout_store_def checkout_core_def)
  from scope_slot_stable [OF c n, of ?es] c n r show ?thesis
    by simp
qed


text \<open>
  C5. \<^verbatim>\<open>Roles()\<close> returns the \<^verbatim>\<open>ServiceRoles\<close> of the context's configuration. For a
  context configured with the name "checkout" and the roles "writer", "api",
  \<^verbatim>\<open>Name()\<close> returns "checkout" and \<^verbatim>\<open>Roles()\<close> returns the two roles in that order.
\<close>

theorem Name_and_Roles_as_configured:
  "serviceCore_Roles (Some a) h = Inr (ServiceRoles (standardConfig (cores h a)))
   \<and> (ServiceName (standardConfig (cores h a)) = ''checkout''
        \<and> ServiceRoles (standardConfig (cores h a)) = [''writer'', ''api''] \<longrightarrow>
      serviceCore_Name (Some a) h = Inr ''checkout''
      \<and> serviceCore_Roles (Some a) h = Inr [''writer'', ''api''])"
  by (simp add: serviceCore_Roles_def serviceCore_Name_def)

theorem Name_and_Roles_as_configured_witness:
  "ServiceName (standardConfig (cores checkout_store 0)) = ''checkout''
   \<and> ServiceRoles (standardConfig (cores checkout_store 0)) = [''writer'', ''api'']
   \<and> serviceCore_Name (Some 0) checkout_store = Inr ''checkout''
   \<and> serviceCore_Roles (Some 0) checkout_store = Inr [''writer'', ''api'']"
proof -
  have n: "ServiceName (standardConfig (cores checkout_store 0)) = ''checkout''"
    and r: "ServiceRoles (standardConfig (cores checkout_store 0)) = [''writer'', ''api'']"
    by (simp_all add: checkout_store_def checkout_core_def)
  from Name_and_Roles_as_configured [of 0 checkout_store] n r show ?thesis
    by blast
qed

text \<open>
  C6. For \<^verbatim>\<open>Name\<close>, \<^verbatim>\<open>Description\<close>, \<^verbatim>\<open>Owner\<close>, \<^verbatim>\<open>Roles\<close>, \<^verbatim>\<open>Config\<close> and \<^verbatim>\<open>Logger\<close>: the
  call returns a value and leaves the store unchanged, so calling again returns the
  same value; and after any history of calls and state writes on the context the call
  still returns that value.
\<close>

theorem immutable_reads_repeat:
  assumes "constructed h (Some a)"
    and "m \<in> {Name, Description, Owner, Roles, Config, Logger}"
  shows "\<exists>vs h' v. run_events es (Some a) h = Inr (vs, h')
           \<and> serviceCore_call m (Some a) h = Inr (v, h)
           \<and> serviceCore_call m (Some a) h' = Inr (v, h')"
proof -
  from run_events_total [OF assms(1), of es] obtain vs h' where
    r: "run_events es (Some a) h = Inr (vs, h')" by blast
  from run_events_frame [OF r] obtain x y where
    f: "cores h' = (cores h)(a := (cores h a)\<lparr>scope := x, state := y\<rparr>)" by blast
  from assms(2) f have "\<exists>v. serviceCore_call m (Some a) h = Inr (v, h)
           \<and> serviceCore_call m (Some a) h' = Inr (v, h')"
    by (auto simp: accessor_defs)
  with r show ?thesis by blast
qed

theorem immutable_reads_repeat_witness:
  "constructed checkout_store (Some 0)
   \<and> returned (run_events [Call Metrics, WriteState 2, Call Roles] (Some 0) checkout_store) =
       Inr [ScopeVal (Some (ScopeRef 0)), RolesVal [''writer'', ''api'']]
   \<and> returned (serviceCore_call Roles (Some 0) checkout_store) = Inr (RolesVal [''writer'', ''api''])"
proof -
  have c: "constructed checkout_store (Some 0)"
    by (rule checkout_constructed)
  have r: "returned (run_events [Call Metrics, WriteState 2, Call Roles] (Some 0) checkout_store) =
       Inr [ScopeVal (Some (ScopeRef 0)), RolesVal [''writer'', ''api'']]"
    by (simp add: returned_def accessor_defs Metrics_defs write_state_def
        checkout_store_def checkout_core_def)
  have m: "Roles \<in> {Name, Description, Owner, Roles, Config, Logger}" by simp
  from immutable_reads_repeat [OF c m, of "[Call Metrics, WriteState 2, Call Roles]"] c r
  show ?thesis
    by (auto simp: returned_def accessor_defs checkout_store_def checkout_core_def)
qed

text \<open>
  C7. On a constructed context every method returns a value, never a fault, also after
  any history of calls and state writes. With no observer, configuration provider or
  logger, \<^verbatim>\<open>Observer()\<close>, \<^verbatim>\<open>Config()\<close> and \<^verbatim>\<open>Logger()\<close> return nil.
\<close>

theorem accessors_total:
  assumes "constructed h (Some a)"
  shows "(\<forall>m. \<exists>v h'. serviceCore_call m (Some a) h = Inr (v, h'))
         \<and> (\<forall>es. \<exists>vs h'. run_events es (Some a) h = Inr (vs, h') \<and> constructed h' (Some a))
         \<and> (observer (cores h a) = None \<longrightarrow> serviceCore_Observer (Some a) h = Inr None)
         \<and> (configProvider (cores h a) = None \<longrightarrow> serviceCore_Config (Some a) h = Inr None)
         \<and> (log (cores h a) = None \<longrightarrow> serviceCore_Logger (Some a) h = Inr None)"
proof -
  have "\<forall>m. \<exists>v h'. serviceCore_call m (Some a) h = Inr (v, h')"
    using call_total [OF assms] by blast
  moreover have "\<forall>es. \<exists>vs h'. run_events es (Some a) h = Inr (vs, h') \<and> constructed h' (Some a)"
    using run_events_total [OF assms] by blast
  moreover have "observer (cores h a) = None \<longrightarrow> serviceCore_Observer (Some a) h = Inr None"
    by (simp add: serviceCore_Observer_def)
  moreover have "configProvider (cores h a) = None \<longrightarrow> serviceCore_Config (Some a) h = Inr None"
    by (simp add: serviceCore_Config_def)
  moreover have "log (cores h a) = None \<longrightarrow> serviceCore_Logger (Some a) h = Inr None"
    by (simp add: serviceCore_Logger_def)
  ultimately show ?thesis by blast
qed

theorem accessors_total_witness:
  "constructed checkout_store (Some 0)
   \<and> observer (cores checkout_store 0) = None
   \<and> configProvider (cores checkout_store 0) = None
   \<and> log (cores checkout_store 0) = None
   \<and> serviceCore_Observer (Some 0) checkout_store = Inr None
   \<and> serviceCore_Config (Some 0) checkout_store = Inr None
   \<and> serviceCore_Logger (Some 0) checkout_store = Inr None
   \<and> (\<exists>v h'. serviceCore_call Metrics (Some 0) checkout_store = Inr (v, h'))"
proof -
  have c: "constructed checkout_store (Some 0)"
    by (rule checkout_constructed)
  have n: "observer (cores checkout_store 0) = None"
    "configProvider (cores checkout_store 0) = None"
    "log (cores checkout_store 0) = None"
    by (simp_all add: checkout_store_def checkout_core_def)
  from accessors_total [OF c] c n show ?thesis
    by blast
qed


text \<open>
  C8. A call that returns leaves the store as it was unless the method is \<^verbatim>\<open>Metrics\<close>.
  \<^verbatim>\<open>Metrics\<close> changes at most the scope slot of its receiver: every other field of the
  receiver, every other context and every container is as before.
\<close>

theorem only_Metrics_writes_scope_slot:
  assumes "serviceCore_call m (Some a) h = Inr (v, h')"
  shows "(m \<noteq> Metrics \<longrightarrow> h' = h)
         \<and> cores h' = (cores h)(a := (cores h a)\<lparr>scope := scope (cores h' a)\<rparr>)
         \<and> containers h' = containers h
         \<and> standardConfig (cores h' a) = standardConfig (cores h a)
         \<and> roles (cores h' a) = roles (cores h a)
         \<and> state (cores h' a) = state (cores h a)
         \<and> configProvider (cores h' a) = configProvider (cores h a)
         \<and> scopeMux (cores h' a) = scopeMux (cores h a)
         \<and> observer (cores h' a) = observer (cores h a)
         \<and> items (cores h' a) = items (cores h a)
         \<and> logConfig (cores h' a) = logConfig (cores h a)
         \<and> log (cores h' a) = log (cores h a)"
proof -
  from call_frame [OF assms] obtain x where
    f: "cores h' = (cores h)(a := (cores h a)\<lparr>scope := x\<rparr>)"
    and c: "containers h' = containers h" by blast
  from f have x: "scope (cores h' a) = x" by simp
  have "m \<noteq> Metrics \<longrightarrow> h' = h"
    using call_not_Metrics [OF _ assms] by blast
  with f c x show ?thesis by simp
qed

theorem only_Metrics_writes_scope_slot_witness:
  "serviceCore_call Metrics (Some 0) checkout_store =
     Inr (ScopeVal (Some (ScopeRef 0)),
          checkout_store\<lparr>cores := (cores checkout_store)
              (0 := (cores checkout_store 0)\<lparr>scope := Some (ScopeRef 0)\<rparr>),
            scopes := [null_scope]\<rparr>)
   \<and> serviceCore_call Items (Some 0) checkout_store = Inr (ItemsVal None, checkout_store)"
proof -
  have 1: "serviceCore_call Metrics (Some 0) checkout_store =
     Inr (ScopeVal (Some (ScopeRef 0)),
          checkout_store\<lparr>cores := (cores checkout_store)
              (0 := (cores checkout_store 0)\<lparr>scope := Some (ScopeRef 0)\<rparr>),
            scopes := [null_scope]\<rparr>)"
    using Metrics_unset [of checkout_store 0]
    by (simp add: checkout_store_def checkout_core_def)
  have 2: "serviceCore_call Items (Some 0) checkout_store = Inr (ItemsVal None, checkout_store)"
    by (simp add: accessor_defs checkout_store_def checkout_core_def)
  from only_Metrics_writes_scope_slot [OF 1] only_Metrics_writes_scope_slot [OF 2] 1 2
  show ?thesis by blast
qed

lemma calls_keep_state:
  "run_events (map Call ms) (Some a) h = Inr (vs, h') \<Longrightarrow> state (cores h' a) = state (cores h a)"
proof (induction ms arbitrary: h vs)
  case Nil
  then show ?case by simp
next
  case (Cons m ms)
  from Cons.prems obtain v h1 vs1 where
    c: "serviceCore_call m (Some a) h = Inr (v, h1)"
    and r: "run_events (map Call ms) (Some a) h1 = Inr (vs1, h')"
    by (auto split: sum.splits)
  from call_frame(1) [OF c] have "state (cores h1 a) = state (cores h a)" by auto
  with Cons.IH [OF r] show ?case by simp
qed

text \<open>
  C9. After the lifecycle state of a context is written to \<open>v\<close>, \<^verbatim>\<open>State()\<close> returns \<open>v\<close>:
  at once, and after any further method calls by the same goroutine.
\<close>

theorem State_returns_last_write:
  assumes "write_state s v h = Inr h1"
    and "run_events (map Call ms) s h1 = Inr (vs, h2)"
  shows "serviceCore_State s h1 = Inr v \<and> serviceCore_State s h2 = Inr v"
proof (cases s)
  case None
  with assms(1) show ?thesis by (simp add: write_state_def)
next
  case (Some a)
  from assms(1) Some have 1: "state (cores h1 a) = v"
    by (auto simp: write_state_def update_core_def)
  from calls_keep_state [OF assms(2) [unfolded Some]] 1 have "state (cores h2 a) = v"
    by simp
  with 1 Some show ?thesis by (simp add: serviceCore_State_def)
qed

theorem State_returns_last_write_witness:
  "write_state (Some 0) 5 checkout_store = Inr (update_core 0 (\<lambda>c. c\<lparr>state := 5\<rparr>) checkout_store)
   \<and> returned (run_events (map Call [Name, Metrics]) (Some 0)
        (update_core 0 (\<lambda>c. c\<lparr>state := 5\<rparr>) checkout_store)) =
       Inr [StringVal ''checkout'', ScopeVal (Some (ScopeRef 0))]
   \<and> serviceCore_State (Some 0) (update_core 0 (\<lambda>c. c\<lparr>state := 5\<rparr>) checkout_store) = Inr 5"
proof -
  let ?h1 = "update_core 0 (\<lambda>c. c\<lparr>state := 5\<rparr>) checkout_store"
  have w: "write_state (Some 0) 5 checkout_store = Inr ?h1"
    by (simp add: write_state_def)
  obtain vs h2 where r: "run_events (map Call [Name, Metrics]) (Some 0) ?h1 = Inr (vs, h2)"
    and vs: "vs = [StringVal ''checkout'', ScopeVal (Some (ScopeRef 0))]"
    by (simp add: accessor_defs Metrics_defs checkout_store_def checkout_core_def)
  from State_returns_last_write [OF w r] w r vs show ?thesis
    by (simp add: returned_def)
qed

lemma Metrics_locked:
  "scopeMux (cores h a) = Locked \<Longrightarrow> serviceCore_Metrics (Some a) h = Inl Deadlock"
  by (simp add: serviceCore_Metrics_def Lock_def)

text \<open>
  C10. \<^verbatim>\<open>Roles()\<close> on a context returns the \<^verbatim>\<open>ServiceRoles\<close> of its \<^verbatim>\<open>standardConfig\<close> and
  depends on nothing else: it returns the same on any two stores in which the context
  has the same \<^verbatim>\<open>ServiceRoles\<close>, whatever the other fields and the other objects are.
  In particular, writing any list to the field \<^verbatim>\<open>roles\<close> of any context changes neither
  what \<^verbatim>\<open>Roles()\<close> returns nor the value that any of the ten methods returns: no method
  reads the field.
\<close>

theorem Roles_ignores_roles_field:
  "serviceCore_Roles (Some b) h = Inr (ServiceRoles (standardConfig (cores h b)))
   \<and> (\<forall>h'. ServiceRoles (standardConfig (cores h' b)) = ServiceRoles (standardConfig (cores h b)) \<longrightarrow>
          serviceCore_Roles (Some b) h' = serviceCore_Roles (Some b) h)
   \<and> serviceCore_Roles s (update_core a (\<lambda>c. c\<lparr>roles := rs\<rparr>) h) = serviceCore_Roles s h
   \<and> (\<forall>m. returned (serviceCore_call m s (update_core a (\<lambda>c. c\<lparr>roles := rs\<rparr>) h)) =
           returned (serviceCore_call m s h))"
proof -
  let ?h = "update_core a (\<lambda>c. c\<lparr>roles := rs\<rparr>) h"
  have V: "serviceCore_Roles (Some b) h = Inr (ServiceRoles (standardConfig (cores h b)))"
    by (simp add: serviceCore_Roles_def)
  have N: "\<forall>h'. ServiceRoles (standardConfig (cores h' b)) = ServiceRoles (standardConfig (cores h b)) \<longrightarrow>
          serviceCore_Roles (Some b) h' = serviceCore_Roles (Some b) h"
    by (simp add: serviceCore_Roles_def)
  have R: "serviceCore_Roles s ?h = serviceCore_Roles s h"
    by (cases s) (simp_all add: serviceCore_Roles_def update_core_def)
  have "returned (serviceCore_call m s ?h) = returned (serviceCore_call m s h)" for m
  proof (cases s)
    case None
    then show ?thesis
      by (cases m) (simp_all add: returned_def accessor_defs serviceCore_Metrics_def)
  next
    case (Some b)
    show ?thesis
    proof (cases "m = Metrics")
      case False
      then show ?thesis using Some
        by (cases m) (simp_all add: returned_def accessor_defs update_core_def)
    next
      case True
      have mu: "scopeMux (cores ?h b) = scopeMux (cores h b)"
        and sc: "scope (cores ?h b) = scope (cores h b)"
        and le: "scopes ?h = scopes h"
        by (simp_all add: update_core_def)
      have "returned (serviceCore_Metrics (Some b) ?h) = returned (serviceCore_Metrics (Some b) h)"
      proof (cases "scopeMux (cores h b)")
        case Locked
        with mu show ?thesis by (simp add: Metrics_locked)
      next
        case Unlocked
        show ?thesis
        proof (cases "scope (cores h b)")
          case None
          from Unlocked None mu sc have "scopeMux (cores ?h b) = Unlocked" "scope (cores ?h b) = None"
            by simp_all
          from Metrics_unset [OF this] Metrics_unset [OF Unlocked None] le show ?thesis
            by (simp add: returned_def)
        next
          case (Some r)
          from Unlocked Some mu sc have "scopeMux (cores ?h b) = Unlocked" "scope (cores ?h b) = Some r"
            by simp_all
          from Metrics_set [OF this] Metrics_set [OF Unlocked Some] show ?thesis
            by (simp add: returned_def)
        qed
      qed
      then show ?thesis using True Some
        by (simp add: returned_def split: sum.splits prod.splits)
    qed
  qed
  with V N R show ?thesis by blast
qed

theorem Roles_ignores_roles_field_witness:
  "ServiceRoles (standardConfig (cores
       (update_core 0 (\<lambda>c. c\<lparr>roles := [''reader''], state := 9, scope := Some (ScopeRef 4)\<rparr>)
          checkout_store) 0)) =
     ServiceRoles (standardConfig (cores checkout_store 0))
   \<and> serviceCore_Roles (Some 0)
       (update_core 0 (\<lambda>c. c\<lparr>roles := [''reader''], state := 9, scope := Some (ScopeRef 4)\<rparr>)
          checkout_store) =
     Inr [''writer'', ''api'']
   \<and> serviceCore_Roles (Some 0) checkout_store = Inr [''writer'', ''api'']"
proof -
  let ?h' = "update_core 0 (\<lambda>c. c\<lparr>roles := [''reader''], state := 9, scope := Some (ScopeRef 4)\<rparr>)
      checkout_store"
  have e: "ServiceRoles (standardConfig (cores ?h' 0)) =
      ServiceRoles (standardConfig (cores checkout_store 0))"
    by (simp add: update_core_def)
  have r: "ServiceRoles (standardConfig (cores checkout_store 0)) = [''writer'', ''api'']"
    by (simp add: checkout_store_def checkout_core_def)
  note t = Roles_ignores_roles_field
    [where b = 0 and h = checkout_store and s = "Some 0" and a = 0 and rs = "[]"]
  from t have v: "serviceCore_Roles (Some 0) checkout_store =
      Inr (ServiceRoles (standardConfig (cores checkout_store 0)))"
    by (rule conjunct1)
  from t have "\<forall>h'. ServiceRoles (standardConfig (cores h' 0)) =
        ServiceRoles (standardConfig (cores checkout_store 0)) \<longrightarrow>
      serviceCore_Roles (Some 0) h' = serviceCore_Roles (Some 0) checkout_store"
    by (rule conjunct1 [OF conjunct2])
  then have "ServiceRoles (standardConfig (cores ?h' 0)) =
        ServiceRoles (standardConfig (cores checkout_store 0)) \<longrightarrow>
      serviceCore_Roles (Some 0) ?h' = serviceCore_Roles (Some 0) checkout_store"
    by (rule spec)
  from this e have n: "serviceCore_Roles (Some 0) ?h' = serviceCore_Roles (Some 0) checkout_store"
    by (rule mp)
  from v r have "serviceCore_Roles (Some 0) checkout_store = Inr [''writer'', ''api'']"
    by simp
  with n e show ?thesis by simp
qed


text \<open>
  C4, as amended. After \<^verbatim>\<open>SetContainer(sh)\<close> on a container, every method of the interface
  \<^verbatim>\<open>ServiceHost\<close> (\<^verbatim>\<open>Name\<close>, \<^verbatim>\<open>Description\<close>, \<^verbatim>\<open>Roles\<close>, \<^verbatim>\<open>State\<close>, \<^verbatim>\<open>Metrics\<close>, \<^verbatim>\<open>Observer\<close>,
  \<^verbatim>\<open>Config\<close>, \<^verbatim>\<open>Items\<close>, \<^verbatim>\<open>Logger\<close>) called on the container does what the same call on
  \<open>sh\<close> does. \<^verbatim>\<open>Owner\<close> is not a method of the interface, and the container has no
  \<^verbatim>\<open>Owner\<close> method.
\<close>

theorem container_delegates_interface:
  assumes "SetContainer (Some c) sh h = Inr h'"
  shows "(\<forall>m\<in>set ServiceHost_methods.
            ServiceHostContainer_call m (Some c) h' = ServiceHost_call m sh h'
            \<and> (\<forall>s. sh = Some s \<longrightarrow>
                  ServiceHostContainer_call m (Some c) h' = Some (serviceCore_call m s h')))
         \<and> Owner \<notin> set ServiceHost_methods
         \<and> ServiceHostContainer_call Owner (Some c) h' = None"
proof -
  from assms have "ServiceHost (containers h' c) = sh"
    by (auto simp: SetContainer_def)
  then show ?thesis
    by (simp add: ServiceHostContainer_call_def ServiceHost_call_def ServiceHost_methods_def)
qed

theorem container_delegates_interface_witness:
  "SetContainer (Some 0) (Some (Some 0)) checkout_store = Inr checkout_contained
   \<and> ServiceHostContainer_call Name (Some 0) checkout_contained =
       Some (Inr (StringVal ''checkout'', checkout_contained))
   \<and> serviceCore_call Name (Some 0) checkout_contained =
       Inr (StringVal ''checkout'', checkout_contained)"
proof -
  have s: "SetContainer (Some 0) (Some (Some 0)) checkout_store = Inr checkout_contained"
    by (simp add: SetContainer_def checkout_contained_def checkout_store_def)
  have n: "serviceCore_call Name (Some 0) checkout_contained =
       Inr (StringVal ''checkout'', checkout_contained)"
    by (simp add: accessor_defs checkout_contained_def checkout_store_def checkout_core_def)
  have m: "Name \<in> set ServiceHost_methods"
    by (simp add: ServiceHost_methods_def)
  from container_delegates_interface [OF s] m n s show ?thesis
    by auto
qed

text \<open>
  The claim C4 as stated, with \<^verbatim>\<open>Owner()\<close> among the delegated operations, fails: the
  host answers \<^verbatim>\<open>Owner()\<close>, the container populated with it has no such method.
\<close>

theorem container_has_no_Owner:
  "SetContainer (Some 0) (Some (Some 0)) checkout_store = Inr checkout_contained
   \<and> serviceCore_call Owner (Some 0) checkout_contained =
       Inr (StringVal ''payments'', checkout_contained)
   \<and> ServiceHostContainer_call Owner (Some 0) checkout_contained = None
   \<and> ServiceHost_call Owner (Some (Some 0)) checkout_contained = None"
  by (simp add: SetContainer_def ServiceHostContainer_call_def ServiceHost_call_def
      ServiceHost_methods_def accessor_defs checkout_contained_def checkout_store_def
      checkout_core_def)

section \<open>Concurrent first calls\<close>

lemma precedes_append:
  "precedes x y (es @ [e]) = (precedes x y es \<or> (x \<in> set es \<and> e = y))"
  by (induction es) auto

lemma precedes_mem: "precedes x y es \<Longrightarrow> x \<in> set es \<and> y \<in> set es"
  by (induction es) (auto split: if_splits)

lemma step_cases [case_names idle acquire check_nil check_set construct store read release]:
  obtains
    (idle) "step a i c = c"
  | (acquire) "i < length (threads c)" "threads c ! i = AtLock"
      "scopeMux (cores (heap c) a) = Unlocked"
      "step a i c = \<lparr>heap = update_core a (\<lambda>k. k\<lparr>scopeMux := Locked\<rparr>) (heap c),
         threads = (threads c)[i := AtCheck], trace = trace c @ [(i, Acquire)]\<rparr>"
  | (check_nil) "i < length (threads c)" "threads c ! i = AtCheck"
      "scope (cores (heap c) a) = None"
      "step a i c = \<lparr>heap = heap c,
         threads = (threads c)[i := AtNew], trace = trace c @ [(i, Check)]\<rparr>"
  | (check_set) "i < length (threads c)" "threads c ! i = AtCheck"
      "scope (cores (heap c) a) \<noteq> None"
      "step a i c = \<lparr>heap = heap c,
         threads = (threads c)[i := AtReturn], trace = trace c @ [(i, Check)]\<rparr>"
  | (construct) "i < length (threads c)" "threads c ! i = AtNew"
      "step a i c = \<lparr>heap = (heap c)\<lparr>scopes := scopes (heap c) @ [null_scope]\<rparr>,
         threads = (threads c)[i := AtStore (ScopeRef (length (scopes (heap c))))],
         trace = trace c @ [(i, Construct)]\<rparr>"
  | (store) r where "i < length (threads c)" "threads c ! i = AtStore r"
      "step a i c = \<lparr>heap = update_core a (\<lambda>k. k\<lparr>scope := Some r\<rparr>) (heap c),
         threads = (threads c)[i := AtReturn], trace = trace c @ [(i, Store)]\<rparr>"
  | (read) "i < length (threads c)" "threads c ! i = AtReturn"
      "step a i c = \<lparr>heap = heap c,
         threads = (threads c)[i := AtUnlock (scope (cores (heap c) a))],
         trace = trace c @ [(i, Read)]\<rparr>"
  | (release) res where "i < length (threads c)" "threads c ! i = AtUnlock res"
      "scopeMux (cores (heap c) a) = Locked"
      "step a i c = \<lparr>heap = update_core a (\<lambda>k. k\<lparr>scopeMux := Unlocked\<rparr>) (heap c),
         threads = (threads c)[i := Done res], trace = trace c @ [(i, Release)]\<rparr>"
proof (cases "i < length (threads c)")
  case False
  then have "step a i c = c" by (simp add: step_def)
  then show ?thesis by (rule idle)
next
  case len: True
  show ?thesis
  proof (cases "threads c ! i")
    case AtLock
    show ?thesis
    proof (cases "scopeMux (cores (heap c) a)")
      case Unlocked
      with len AtLock show ?thesis
        by (intro acquire) (simp_all add: step_def Lock_def)
    next
      case Locked
      with len AtLock have "step a i c = c" by (simp add: step_def Lock_def)
      then show ?thesis by (rule idle)
    qed
  next
    case AtCheck
    show ?thesis
    proof (cases "scope (cores (heap c) a) = None")
      case True
      with len AtCheck show ?thesis
        by (intro check_nil) (simp_all add: step_def)
    next
      case False
      with len AtCheck show ?thesis
        by (intro check_set) (auto simp: step_def)
    qed
  next
    case AtNew
    with len show ?thesis
      by (intro construct) (simp_all add: step_def NewRootScope_def null_scope_def)
  next
    case (AtStore r)
    with len show ?thesis
      by (intro store [of r]) (simp_all add: step_def)
  next
    case AtReturn
    with len show ?thesis
      by (intro read) (simp_all add: step_def)
  next
    case (AtUnlock res)
    show ?thesis
    proof (cases "scopeMux (cores (heap c) a)")
      case Locked
      with len AtUnlock show ?thesis
        by (intro release [of res]) (simp_all add: step_def Unlock_def)
    next
      case Unlocked
      with len AtUnlock have "step a i c = c" by (simp add: step_def Unlock_def)
      then show ?thesis by (rule idle)
    qed
  next
    case (Done res)
    with len have "step a i c = c" by (simp add: step_def)
    then show ?thesis by (rule idle)
  qed
qed


lemma invariantD:
  assumes "invariant a S0 c"
  shows "inv_mutex a c" "inv_slot a S0 c" "inv_trace a c" "inv_order c"
  using assms by (simp_all add: invariant_def)

text \<open>Facts about the goroutine that is inside.\<close>

lemma holder_alone:
  assumes "inv_mutex a c" "i < length (threads c)" "in_cs (threads c ! i)"
  shows "\<forall>j<length (threads c). j \<noteq> i \<longrightarrow> \<not> in_cs (threads c ! j)"
    and "scopeMux (cores (heap c) a) = Locked"
  using assms unfolding inv_mutex_def by (blast, auto)

lemma free_nobody_inside:
  assumes "inv_mutex a c" "scopeMux (cores (heap c) a) = Unlocked"
  shows "\<forall>j<length (threads c). \<not> in_cs (threads c ! j)"
  using assms unfolding inv_mutex_def by (auto split: if_splits)

lemma inv_mutex_step:
  assumes "inv_mutex a c"
  shows "inv_mutex a (step a i c)"
proof (cases rule: step_cases [of a i c])
  case idle
  with assms show ?thesis by simp
next
  case acquire
  from free_nobody_inside [OF assms acquire(3)]
  have n: "\<forall>j<length (threads c). \<not> in_cs (threads c ! j)" .
  show ?thesis
    unfolding acquire(4) inv_mutex_def using n acquire(1)
    by (auto simp: nth_list_update update_core_def)
next
  case check_nil
  from holder_alone [OF assms check_nil(1)] check_nil(2)
  have n: "\<forall>j<length (threads c). j \<noteq> i \<longrightarrow> \<not> in_cs (threads c ! j)"
    and l: "scopeMux (cores (heap c) a) = Locked" by simp_all
  show ?thesis
    unfolding check_nil(4) inv_mutex_def using n l check_nil(1)
    by (auto simp: nth_list_update)
next
  case check_set
  from holder_alone [OF assms check_set(1)] check_set(2)
  have n: "\<forall>j<length (threads c). j \<noteq> i \<longrightarrow> \<not> in_cs (threads c ! j)"
    and l: "scopeMux (cores (heap c) a) = Locked" by simp_all
  show ?thesis
    unfolding check_set(4) inv_mutex_def using n l check_set(1)
    by (auto simp: nth_list_update)
next
  case construct
  from holder_alone [OF assms construct(1)] construct(2)
  have n: "\<forall>j<length (threads c). j \<noteq> i \<longrightarrow> \<not> in_cs (threads c ! j)"
    and l: "scopeMux (cores (heap c) a) = Locked" by simp_all
  show ?thesis
    unfolding construct(3) inv_mutex_def using n l construct(1)
    by (auto simp: nth_list_update)
next
  case (store r)
  from holder_alone [OF assms store(1)] store(2)
  have n: "\<forall>j<length (threads c). j \<noteq> i \<longrightarrow> \<not> in_cs (threads c ! j)"
    and l: "scopeMux (cores (heap c) a) = Locked" by simp_all
  show ?thesis
    unfolding store(3) inv_mutex_def using n l store(1)
    by (auto simp: nth_list_update update_core_def)
next
  case read
  from holder_alone [OF assms read(1)] read(2)
  have n: "\<forall>j<length (threads c). j \<noteq> i \<longrightarrow> \<not> in_cs (threads c ! j)"
    and l: "scopeMux (cores (heap c) a) = Locked" by simp_all
  show ?thesis
    unfolding read(3) inv_mutex_def using n l read(1)
    by (auto simp: nth_list_update)
next
  case (release res)
  from holder_alone [OF assms release(1)] release(2)
  have n: "\<forall>j<length (threads c). j \<noteq> i \<longrightarrow> \<not> in_cs (threads c ! j)" by simp
  show ?thesis
    unfolding release(4) inv_mutex_def using n release(1)
    by (auto simp: nth_list_update update_core_def)
qed


lemma outside_cs:
  "\<not> in_cs p \<Longrightarrow> \<not> at_store p"
  "\<not> in_cs p \<Longrightarrow> pc_ok r0 None p \<Longrightarrow> p = AtLock"
  "\<not> in_cs p \<Longrightarrow> pc_ok r0 None p \<Longrightarrow> pc_ok r0 slot p"
  by (cases p; simp)+

lemma ex_update_same:
  assumes "i < length ts" and "P (ts ! i) = P p"
  shows "(\<exists>j<length ts. P (ts[i := p] ! j)) = (\<exists>j<length ts. P (ts ! j))"
proof
  assume "\<exists>j<length ts. P (ts[i := p] ! j)"
  then obtain j where j: "j < length ts" "P (ts[i := p] ! j)" by auto
  show "\<exists>j<length ts. P (ts ! j)"
  proof (cases "j = i")
    case True
    with j assms have "P (ts ! i)" by simp
    with assms(1) show ?thesis by blast
  next
    case False
    with j have "P (ts ! j)" by simp
    with j(1) show ?thesis by blast
  qed
next
  assume "\<exists>j<length ts. P (ts ! j)"
  then obtain j where j: "j < length ts" "P (ts ! j)" by auto
  show "\<exists>j<length ts. P (ts[i := p] ! j)"
  proof (cases "j = i")
    case True
    with j assms have "P (ts[i := p] ! i)" by simp
    with assms(1) show ?thesis by auto
  next
    case False
    with j have "P (ts[i := p] ! j)" by simp
    with j(1) show ?thesis by auto
  qed
qed

lemma ex_update_new:
  assumes "i < length ts" and "P p"
  shows "\<exists>j<length ts. P (ts[i := p] ! j)"
  using assms by (auto intro!: exI [of _ i])

lemma inv_slotD:
  assumes "inv_slot a S0 c"
  shows "\<forall>j<length (threads c). pc_ok (ScopeRef (length S0)) (scope (cores (heap c) a)) (threads c ! j)"
    and "scopes (heap c) =
          (if scope (cores (heap c) a) = None \<and> \<not> (\<exists>i<length (threads c). at_store (threads c ! i))
           then S0 else S0 @ [null_scope])"
    and "scope (cores (heap c) a) = None \<or> scope (cores (heap c) a) = Some (ScopeRef (length S0))"
  using assms by (simp_all add: inv_slot_def)

lemma inv_slot_step:
  assumes m: "inv_mutex a c" and s: "inv_slot a S0 c"
  shows "inv_slot a S0 (step a i c)"
proof (cases rule: step_cases [of a i c])
  case idle
  with s show ?thesis by simp
next
  case acquire
  have x: "(\<exists>j<length (threads c). at_store ((threads c)[i := AtCheck] ! j)) =
      (\<exists>j<length (threads c). at_store (threads c ! j))"
    using acquire(1,2) by (intro ex_update_same) simp_all
  show ?thesis
    unfolding acquire(4) inv_slot_def using inv_slotD [OF s] acquire(1,2)
    by (simp add: x update_core_def) (auto simp: nth_list_update)
next
  case check_nil
  have x: "(\<exists>j<length (threads c). at_store ((threads c)[i := AtNew] ! j)) =
      (\<exists>j<length (threads c). at_store (threads c ! j))"
    using check_nil(1,2) by (intro ex_update_same) simp_all
  show ?thesis
    unfolding check_nil(4) inv_slot_def using inv_slotD [OF s] check_nil(1,2,3)
    by (simp add: x) (auto simp: nth_list_update)
next
  case check_set
  have x: "(\<exists>j<length (threads c). at_store ((threads c)[i := AtReturn] ! j)) =
      (\<exists>j<length (threads c). at_store (threads c ! j))"
    using check_set(1,2) by (intro ex_update_same) simp_all
  show ?thesis
    unfolding check_set(4) inv_slot_def using inv_slotD [OF s] check_set(1,2,3)
    by (simp add: x) (auto simp: nth_list_update)
next
  case construct
  from holder_alone(1) [OF m construct(1)] construct(2)
  have n: "\<forall>j<length (threads c). j \<noteq> i \<longrightarrow> \<not> in_cs (threads c ! j)" by simp
  from inv_slotD(1) [OF s] construct(1,2)
  have e: "scope (cores (heap c) a) = None" by fastforce
  have "\<not> at_store (threads c ! j)" if "j < length (threads c)" for j
    using n that construct(2) by (cases "j = i") (auto dest: outside_cs(1))
  with inv_slotD(2) [OF s] e have l: "scopes (heap c) = S0" by auto
  have x: "\<exists>j<length (threads c). at_store ((threads c)[i := AtStore (ScopeRef (length S0))] ! j)"
    using construct(1) by (intro ex_update_new) simp_all
  show ?thesis
    unfolding construct(3) inv_slot_def using inv_slotD(1) [OF s] construct(1) e l
    by (simp add: x) (auto simp: nth_list_update)
next
  case (store r)
  from holder_alone(1) [OF m store(1)] store(2)
  have n: "\<forall>j<length (threads c). j \<noteq> i \<longrightarrow> \<not> in_cs (threads c ! j)" by simp
  from inv_slotD(1) [OF s] store(1,2)
  have e: "scope (cores (heap c) a) = None" and r: "r = ScopeRef (length S0)" by fastforce+
  from inv_slotD(2) [OF s] store(1,2) have l: "scopes (heap c) = S0 @ [null_scope]"
    by auto
  have o: "pc_ok (ScopeRef (length S0)) (Some (ScopeRef (length S0))) (threads c ! j)"
    if "j < length (threads c)" "j \<noteq> i" for j
    using n that inv_slotD(1) [OF s] e by (auto intro: outside_cs(3))
  show ?thesis
    unfolding store(3) inv_slot_def using o store(1) r l
    by (auto simp: nth_list_update update_core_def)
next
  case read
  from inv_slotD(1) [OF s] read(1,2)
  have e: "scope (cores (heap c) a) = Some (ScopeRef (length S0))" by fastforce
  show ?thesis
    unfolding read(3) inv_slot_def using inv_slotD [OF s] read(1,2) e
    by (auto simp: nth_list_update)
next
  case (release res)
  have x: "(\<exists>j<length (threads c). at_store ((threads c)[i := Done res] ! j)) =
      (\<exists>j<length (threads c). at_store (threads c ! j))"
    using release(1,2) by (intro ex_update_same) simp_all
  show ?thesis
    unfolding release(4) inv_slot_def using inv_slotD [OF s] release(1,2)
    by (simp add: x update_core_def) (auto simp: nth_list_update)
qed


lemma inv_traceD:
  assumes "inv_trace a c"
  shows "((k, Acquire) \<in> set (trace c)) = (k < length (threads c) \<and> threads c ! k \<noteq> AtLock)"
    and "(k, Store) \<in> set (trace c) \<Longrightarrow> k < length (threads c) \<and> past_store (threads c ! k)"
    and "((k, Release) \<in> set (trace c)) = (k < length (threads c) \<and> is_Done (threads c ! k))"
    and "scope (cores (heap c) a) \<noteq> None \<Longrightarrow> \<exists>k. (k, Store) \<in> set (trace c)"
  using assms unfolding inv_trace_def by blast+

lemma inv_trace_update:
  assumes t: "inv_trace a c" and i: "i < length (threads c)" and p: "threads c ! i = p"
    and 1: "p' \<noteq> AtLock" and 2: "p \<noteq> AtLock \<or> act = Acquire"
    and 3: "past_store p \<longrightarrow> past_store p'" and 4: "act = Store \<longrightarrow> past_store p'"
    and 5: "is_Done p' \<longleftrightarrow> act = Release" and 6: "\<not> is_Done p"
    and 7: "scope (cores h' a) \<noteq> None \<longrightarrow> scope (cores (heap c) a) \<noteq> None \<or> act = Store"
  shows "inv_trace a \<lparr>heap = h', threads = (threads c)[i := p'], trace = trace c @ [(i, act)]\<rparr>"
  unfolding inv_trace_def
proof (intro conjI allI)
  fix k
  show "((k, Acquire) \<in> set (trace \<lparr>heap = h', threads = (threads c)[i := p'], trace = trace c @ [(i, act)]\<rparr>)) =
      (k < length (threads \<lparr>heap = h', threads = (threads c)[i := p'], trace = trace c @ [(i, act)]\<rparr>)
       \<and> threads \<lparr>heap = h', threads = (threads c)[i := p'], trace = trace c @ [(i, act)]\<rparr> ! k \<noteq> AtLock)"
  proof (cases "k = i")
    case True
    with inv_traceD(1) [OF t, of i] i p 1 2 show ?thesis by auto
  next
    case False
    with inv_traceD(1) [OF t, of k] show ?thesis by auto
  qed
  show "(k, Store) \<in> set (trace \<lparr>heap = h', threads = (threads c)[i := p'], trace = trace c @ [(i, act)]\<rparr>) \<longrightarrow>
      k < length (threads \<lparr>heap = h', threads = (threads c)[i := p'], trace = trace c @ [(i, act)]\<rparr>)
       \<and> past_store (threads \<lparr>heap = h', threads = (threads c)[i := p'], trace = trace c @ [(i, act)]\<rparr> ! k)"
  proof (cases "k = i")
    case True
    with inv_traceD(2) [OF t, of i] i p 3 4 show ?thesis by auto
  next
    case False
    with inv_traceD(2) [OF t, of k] show ?thesis by auto
  qed
  show "((k, Release) \<in> set (trace \<lparr>heap = h', threads = (threads c)[i := p'], trace = trace c @ [(i, act)]\<rparr>)) =
      (k < length (threads \<lparr>heap = h', threads = (threads c)[i := p'], trace = trace c @ [(i, act)]\<rparr>)
       \<and> is_Done (threads \<lparr>heap = h', threads = (threads c)[i := p'], trace = trace c @ [(i, act)]\<rparr> ! k))"
  proof (cases "k = i")
    case True
    with inv_traceD(3) [OF t, of i] i p 5 6 show ?thesis by auto
  next
    case False
    with inv_traceD(3) [OF t, of k] show ?thesis by auto
  qed
next
  show "scope (cores (heap \<lparr>heap = h', threads = (threads c)[i := p'], trace = trace c @ [(i, act)]\<rparr>) a) \<noteq> None \<longrightarrow>
      (\<exists>k. (k, Store) \<in> set (trace \<lparr>heap = h', threads = (threads c)[i := p'], trace = trace c @ [(i, act)]\<rparr>))"
  proof
    assume "scope (cores (heap \<lparr>heap = h', threads = (threads c)[i := p'], trace = trace c @ [(i, act)]\<rparr>) a) \<noteq> None"
    with 7 have "scope (cores (heap c) a) \<noteq> None \<or> act = Store" by simp
    then show "\<exists>k. (k, Store) \<in> set (trace \<lparr>heap = h', threads = (threads c)[i := p'], trace = trace c @ [(i, act)]\<rparr>)"
    proof
      assume "scope (cores (heap c) a) \<noteq> None"
      from inv_traceD(4) [OF t this] show ?thesis by auto
    next
      assume "act = Store"
      then show ?thesis by auto
    qed
  qed
qed

lemma inv_trace_step:
  assumes t: "inv_trace a c"
  shows "inv_trace a (step a i c)"
proof (cases rule: step_cases [of a i c])
  case idle
  with t show ?thesis by simp
next
  case acquire
  show ?thesis
    unfolding acquire(4) using t acquire(1,2)
    by (rule inv_trace_update) (simp_all add: update_core_def)
next
  case check_nil
  show ?thesis
    unfolding check_nil(4) using t check_nil(1,2)
    by (rule inv_trace_update) simp_all
next
  case check_set
  show ?thesis
    unfolding check_set(4) using t check_set(1,2)
    by (rule inv_trace_update) simp_all
next
  case construct
  show ?thesis
    unfolding construct(3) using t construct(1,2)
    by (rule inv_trace_update) simp_all
next
  case (store r)
  show ?thesis
    unfolding store(3) using t store(1,2)
    by (rule inv_trace_update) simp_all
next
  case read
  show ?thesis
    unfolding read(3) using t read(1,2)
    by (rule inv_trace_update) simp_all
next
  case (release res)
  show ?thesis
    unfolding release(4) using t release(1,2)
    by (rule inv_trace_update) (simp_all add: update_core_def)
qed


lemma inv_orderD:
  assumes "inv_order c"
  shows "i \<noteq> j \<Longrightarrow> (i, Store) \<in> set (trace c) \<Longrightarrow> (j, Acquire) \<in> set (trace c) \<Longrightarrow>
           precedes (i, Release) (j, Acquire) (trace c)"
    and "(i, Store) \<in> set (trace c) \<Longrightarrow> (i, Release) \<in> set (trace c) \<Longrightarrow>
           precedes (i, Store) (i, Release) (trace c)"
    and "(j, Check) \<in> set (trace c) \<Longrightarrow> precedes (j, Acquire) (j, Check) (trace c)"
    and "(j, Read) \<in> set (trace c) \<Longrightarrow> precedes (j, Acquire) (j, Read) (trace c)"
    and "(i, Store) \<in> set (trace c) \<Longrightarrow> (j, Store) \<in> set (trace c) \<Longrightarrow> i = j"
  using assms unfolding inv_order_def by blast+

lemma inv_order_append:
  assumes o: "inv_order c"
    and 1: "act = Store \<Longrightarrow> \<forall>j. j \<noteq> k \<longrightarrow> (j, Acquire) \<notin> set (trace c)"
    and 2: "act = Acquire \<Longrightarrow> \<forall>i. i \<noteq> k \<and> (i, Store) \<in> set (trace c) \<longrightarrow> (i, Release) \<in> set (trace c)"
    and 3: "act = Store \<Longrightarrow> (k, Release) \<notin> set (trace c)"
    and 4: "act = Check \<or> act = Read \<Longrightarrow> (k, Acquire) \<in> set (trace c)"
    and 5: "act = Store \<Longrightarrow> \<forall>j. (j, Store) \<notin> set (trace c)"
  shows "inv_order \<lparr>heap = h', threads = ts', trace = trace c @ [(k, act)]\<rparr>"
  unfolding inv_order_def
proof (intro allI conjI impI; (elim conjE)?; simp only: config.simps)
  fix i j
  let ?tr = "trace c @ [(k, act)]"
  {
    assume n: "i \<noteq> j" and s: "(i, Store) \<in> set ?tr" and a: "(j, Acquire) \<in> set ?tr"
    show "precedes (i, Release) (j, Acquire) ?tr"
    proof (cases "(i, Store) \<in> set (trace c)")
      case True
      show ?thesis
      proof (cases "(j, Acquire) \<in> set (trace c)")
        case inj: True
        from inv_orderD(1) [OF o n True inj] show ?thesis by (simp add: precedes_append)
      next
        case False
        with a have e: "j = k" "act = Acquire" by auto
        with 2 n True have "(i, Release) \<in> set (trace c)" by blast
        with e show ?thesis by (simp add: precedes_append)
      qed
    next
      case False
      with s have e: "i = k" "act = Store" by auto
      with a have "(j, Acquire) \<in> set (trace c)" by auto
      with 1 e n show ?thesis by auto
    qed
  }
  {
    assume s: "(i, Store) \<in> set ?tr" and r: "(i, Release) \<in> set ?tr"
    show "precedes (i, Store) (i, Release) ?tr"
    proof (cases "(i, Store) \<in> set (trace c)")
      case True
      show ?thesis
      proof (cases "(i, Release) \<in> set (trace c)")
        case inr: True
        from inv_orderD(2) [OF o True inr] show ?thesis by (simp add: precedes_append)
      next
        case False
        with r have "i = k" "act = Release" by auto
        with True show ?thesis by (simp add: precedes_append)
      qed
    next
      case False
      with s have e: "i = k" "act = Store" by auto
      with r have "(k, Release) \<in> set (trace c)" by auto
      with 3 e show ?thesis by auto
    qed
  }
  {
    assume s: "(j, Check) \<in> set ?tr"
    show "precedes (j, Acquire) (j, Check) ?tr"
    proof (cases "(j, Check) \<in> set (trace c)")
      case True
      from inv_orderD(3) [OF o True] show ?thesis by (simp add: precedes_append)
    next
      case False
      with s have e: "j = k" "act = Check" by auto
      with 4 have "(k, Acquire) \<in> set (trace c)" by blast
      with e show ?thesis by (simp add: precedes_append)
    qed
  }
  {
    assume s: "(j, Read) \<in> set ?tr"
    show "precedes (j, Acquire) (j, Read) ?tr"
    proof (cases "(j, Read) \<in> set (trace c)")
      case True
      from inv_orderD(4) [OF o True] show ?thesis by (simp add: precedes_append)
    next
      case False
      with s have e: "j = k" "act = Read" by auto
      with 4 have "(k, Acquire) \<in> set (trace c)" by blast
      with e show ?thesis by (simp add: precedes_append)
    qed
  }
  {
    assume s: "(i, Store) \<in> set ?tr" and s': "(j, Store) \<in> set ?tr"
    show "i = j"
    proof (cases "act = Store")
      case True
      with 5 s s' show ?thesis by auto
    next
      case False
      with s s' have "(i, Store) \<in> set (trace c)" "(j, Store) \<in> set (trace c)" by auto
      from inv_orderD(5) [OF o this] show ?thesis .
    qed
  }
qed


lemma past_store_facts:
  "past_store p \<Longrightarrow> \<not> in_cs p \<Longrightarrow> is_Done p"
  "past_store p \<Longrightarrow> \<not> pc_ok r0 None p"
  by (cases p; simp)+

lemma inv_order_step:
  assumes inv: "invariant a S0 c"
  shows "inv_order (step a i c)"
proof -
  note m = invariantD(1) [OF inv] and s = invariantD(2) [OF inv]
    and t = invariantD(3) [OF inv] and o = invariantD(4) [OF inv]
  show ?thesis
  proof (cases rule: step_cases [of a i c])
    case idle
    with o show ?thesis by simp
  next
    case acquire
    have "(k, Release) \<in> set (trace c)" if "(k, Store) \<in> set (trace c)" for k
    proof -
      from inv_traceD(2) [OF t that] have k: "k < length (threads c)" "past_store (threads c ! k)"
        by simp_all
      from free_nobody_inside [OF m acquire(3)] k(1) have "\<not> in_cs (threads c ! k)" by simp
      from past_store_facts(1) [OF k(2) this] k(1) show ?thesis
        by (simp add: inv_traceD(3) [OF t])
    qed
    then show ?thesis
      unfolding acquire(4) by (intro inv_order_append [OF o]) simp_all
  next
    case check_nil
    from inv_traceD(1) [OF t, of i] check_nil(1,2) have "(i, Acquire) \<in> set (trace c)" by simp
    then show ?thesis
      unfolding check_nil(4) by (intro inv_order_append [OF o]) simp_all
  next
    case check_set
    from inv_traceD(1) [OF t, of i] check_set(1,2) have "(i, Acquire) \<in> set (trace c)" by simp
    then show ?thesis
      unfolding check_set(4) by (intro inv_order_append [OF o]) simp_all
  next
    case construct
    show ?thesis
      unfolding construct(3) by (intro inv_order_append [OF o]) simp_all
  next
    case (store r)
    from inv_slotD(1) [OF s] store(1,2) have e: "scope (cores (heap c) a) = None" by fastforce
    have ok: "pc_ok (ScopeRef (length S0)) None (threads c ! k)" if "k < length (threads c)" for k
      using inv_slotD(1) [OF s] e that by simp
    from holder_alone(1) [OF m store(1)] store(2)
    have n: "\<forall>j<length (threads c). j \<noteq> i \<longrightarrow> \<not> in_cs (threads c ! j)" by simp
    have 1: "\<forall>j. j \<noteq> i \<longrightarrow> (j, Acquire) \<notin> set (trace c)"
    proof (intro allI impI notI)
      fix j assume j: "j \<noteq> i" "(j, Acquire) \<in> set (trace c)"
      from inv_traceD(1) [OF t, of j] j(2) have l: "j < length (threads c)" "threads c ! j \<noteq> AtLock"
        by simp_all
      from n l(1) j(1) have "\<not> in_cs (threads c ! j)" by simp
      from outside_cs(2) [OF this ok [OF l(1)]] l(2) show False by simp
    qed
    have 3: "(i, Release) \<notin> set (trace c)"
      using inv_traceD(3) [OF t, of i] store(2) by simp
    have 5: "\<forall>j. (j, Store) \<notin> set (trace c)"
    proof (intro allI notI)
      fix j assume "(j, Store) \<in> set (trace c)"
      from inv_traceD(2) [OF t this] have l: "j < length (threads c)" "past_store (threads c ! j)"
        by simp_all
      from past_store_facts(2) [OF l(2)] ok [OF l(1)] show False by simp
    qed
    from 1 3 5 show ?thesis
      unfolding store(3) by (intro inv_order_append [OF o]) simp_all
  next
    case read
    from inv_traceD(1) [OF t, of i] read(1,2) have "(i, Acquire) \<in> set (trace c)" by simp
    then show ?thesis
      unfolding read(3) by (intro inv_order_append [OF o]) simp_all
  next
    case (release res)
    show ?thesis
      unfolding release(4) by (intro inv_order_append [OF o]) simp_all
  qed
qed

lemma invariant_step:
  "invariant a S0 c \<Longrightarrow> invariant a S0 (step a i c)"
  using inv_mutex_step [of a c i] inv_slot_step [of a c S0 i] inv_trace_step [of a c i]
    inv_order_step [of a S0 c i]
  by (simp add: invariant_def)

lemma invariant_interleave:
  "invariant a S0 c \<Longrightarrow> invariant a S0 (interleave a sched c)"
  by (induction sched arbitrary: c) (simp_all add: invariant_step)

lemma invariant_start:
  assumes "scopeMux (cores h a) = Unlocked" and "scope (cores h a) = None"
  shows "invariant a (scopes h) (start h n)"
  using assms
  by (simp add: invariant_def inv_mutex_def inv_slot_def inv_trace_def inv_order_def start_def)


lemma weight_update:
  "i < length ts \<Longrightarrow> weight p < weight (ts ! i) \<Longrightarrow>
     sum_list (map weight (ts[i := p])) < sum_list (map weight ts)"
  by (induction ts arbitrary: i) (auto simp: nth_Cons split: nat.splits)

lemma length_step [simp]: "length (threads (step a i c)) = length (threads c)"
  by (cases rule: step_cases [of a i c]) simp_all

lemma length_interleave [simp]: "length (threads (interleave a sched c)) = length (threads c)"
  by (induction sched arbitrary: c) simp_all

lemma interleave_append:
  "interleave a (s1 @ s2) c = interleave a s2 (interleave a s1 c)"
  by (induction s1 arbitrary: c) simp_all

lemma enabled_decreases:
  assumes "i < length (threads c)" and "\<not> is_Done (threads c ! i)"
    and "threads c ! i = AtLock \<longrightarrow> scopeMux (cores (heap c) a) = Unlocked"
    and "in_cs (threads c ! i) \<longrightarrow> scopeMux (cores (heap c) a) = Locked"
  shows "sum_list (map weight (threads (step a i c))) < sum_list (map weight (threads c))"
  using assms
  by (cases "threads c ! i")
    (simp_all add: step_def Lock_def Unlock_def NewRootScope_def weight_update)

lemma is_Done_iff: "is_Done p \<longleftrightarrow> (\<exists>res. p = Done res)"
  by (cases p) simp_all

lemma progress:
  assumes inv: "invariant a S0 c" and "\<exists>i<length (threads c). \<not> is_Done (threads c ! i)"
  shows "\<exists>i. sum_list (map weight (threads (step a i c))) < sum_list (map weight (threads c))"
proof -
  note m = invariantD(1) [OF inv]
  from assms(2) obtain i where i: "i < length (threads c)" "\<not> is_Done (threads c ! i)" by blast
  show ?thesis
  proof (cases "scopeMux (cores (heap c) a)")
    case Unlocked
    from free_nobody_inside [OF m Unlocked] i(1) have "\<not> in_cs (threads c ! i)" by simp
    with i Unlocked have "sum_list (map weight (threads (step a i c))) < sum_list (map weight (threads c))"
      by (intro enabled_decreases) simp_all
    then show ?thesis ..
  next
    case Locked
    with m obtain j where j: "j < length (threads c)" "in_cs (threads c ! j)"
      unfolding inv_mutex_def by (auto split: if_splits)
    then have "\<not> is_Done (threads c ! j)" "threads c ! j \<noteq> AtLock"
      by (cases "threads c ! j"; simp)+
    with j Locked have "sum_list (map weight (threads (step a j c))) < sum_list (map weight (threads c))"
      by (intro enabled_decreases) simp_all
    then show ?thesis ..
  qed
qed

lemma completion:
  "invariant a S0 c \<Longrightarrow>
     \<exists>sched. \<forall>i<length (threads c). is_Done (threads (interleave a sched c) ! i)"
proof (induction "sum_list (map weight (threads c))" arbitrary: c rule: less_induct)
  case less
  show ?case
  proof (cases "\<exists>i<length (threads c). \<not> is_Done (threads c ! i)")
    case False
    then have "\<forall>i<length (threads c). is_Done (threads (interleave a [] c) ! i)" by simp
    then show ?thesis ..
  next
    case True
    from progress [OF less.prems True] obtain i where
      d: "sum_list (map weight (threads (step a i c))) < sum_list (map weight (threads c))" ..
    from less.hyps [OF d invariant_step [OF less.prems]] obtain sched where
      "\<forall>j<length (threads (step a i c)). is_Done (threads (interleave a sched (step a i c)) ! j)" ..
    then have "\<forall>j<length (threads c). is_Done (threads (interleave a (i # sched) c) ! j)"
      by simp
    then show ?thesis ..
  qed
qed


text \<open>A goroutine that runs alone does what \<open>serviceCore_Metrics\<close> does.\<close>

lemma solo_thread_is_Metrics:
  assumes "constructed h (Some a)"
  shows "\<exists>r h'. serviceCore_Metrics (Some a) h = Inr (r, h')
           \<and> threads (interleave a [0, 0, 0, 0, 0, 0] (start h 1)) = [Done r]
           \<and> heap (interleave a [0, 0, 0, 0, 0, 0] (start h 1)) = h'"
proof -
  have u: "scopeMux (cores h a) = Unlocked" using assms by (rule constructedD)
  show ?thesis
  proof (cases "scope (cores h a)")
    case None
    from Metrics_unset [OF u None] u None show ?thesis
      by (simp add: start_def step_def Lock_def Unlock_def NewRootScope_def update_core_def
          unlock_restores null_scope_def)
  next
    case (Some r)
    from Metrics_set [OF u Some] u Some show ?thesis
      by (simp add: start_def step_def Lock_def Unlock_def update_core_def unlock_restores)
  qed
qed

text \<open>
  C3. \<open>n\<close> goroutines call \<^verbatim>\<open>Metrics()\<close> on a context whose slot is empty, under any
  schedule. In every configuration reached: each call that has returned has returned
  the same scope, the first free address of the scope store at the start; at most one
  scope object has been constructed, and exactly one, the null scope, once a call has
  returned; one goroutine at most has stored into the slot; and for every other
  goroutine that has read the slot (in the test or for its result), the store comes
  before the storing goroutine's \<^verbatim>\<open>Unlock\<close>, that before the reader's \<^verbatim>\<open>Lock\<close>, and that
  before the read: the chain of program order and mutex synchronisation that Go's
  memory model calls happens-before. Every schedule can be continued so that all \<open>n\<close>
  calls return.
\<close>

theorem concurrent_first_callers:
  assumes k: "constructed h (Some a)" and e: "scope (cores h a) = None"
    and c: "c = interleave a sched (start h n)"
  shows "(\<forall>i<n. \<forall>res. threads c ! i = Done res \<longrightarrow> res = Some (ScopeRef (length (scopes h))))
    \<and> (scopes (heap c) = scopes h \<or> scopes (heap c) = scopes h @ [null_scope])
    \<and> ((\<exists>i<n. \<exists>res. threads c ! i = Done res) \<longrightarrow>
          scopes (heap c) = scopes h @ [null_scope]
          \<and> scope (cores (heap c) a) = Some (ScopeRef (length (scopes h)))
          \<and> (\<exists>k<n. (k, Store) \<in> set (trace c)))
    \<and> (\<forall>i j. (i, Store) \<in> set (trace c) \<and> (j, Store) \<in> set (trace c) \<longrightarrow> i = j)
    \<and> (\<forall>i j. i \<noteq> j \<and> (i, Store) \<in> set (trace c)
            \<and> ((j, Check) \<in> set (trace c) \<or> (j, Read) \<in> set (trace c)) \<longrightarrow>
          precedes (i, Store) (i, Release) (trace c)
          \<and> precedes (i, Release) (j, Acquire) (trace c)
          \<and> ((j, Check) \<in> set (trace c) \<longrightarrow> precedes (j, Acquire) (j, Check) (trace c))
          \<and> ((j, Read) \<in> set (trace c) \<longrightarrow> precedes (j, Acquire) (j, Read) (trace c)))
    \<and> (\<exists>sched'. \<forall>i<n. \<exists>res.
          threads (interleave a (sched @ sched') (start h n)) ! i = Done res)"
proof -
  have inv: "invariant a (scopes h) c"
    unfolding c using constructedD [OF k] e
    by (intro invariant_interleave invariant_start)
  note s = invariantD(2) [OF inv] and t = invariantD(3) [OF inv] and o = invariantD(4) [OF inv]
  have len: "length (threads c) = n"
    by (simp add: c start_def)
  have ok: "pc_ok (ScopeRef (length (scopes h))) (scope (cores (heap c) a)) (threads c ! i)"
    if "i < n" for i
    using inv_slotD(1) [OF s] that len by simp
  have 1: "\<forall>i<n. \<forall>res. threads c ! i = Done res \<longrightarrow> res = Some (ScopeRef (length (scopes h)))"
    using ok by fastforce
  have 2: "scopes (heap c) = scopes h \<or> scopes (heap c) = scopes h @ [null_scope]"
    using inv_slotD(2) [OF s] by (simp split: if_splits)
  have 3: "scopes (heap c) = scopes h @ [null_scope]
      \<and> scope (cores (heap c) a) = Some (ScopeRef (length (scopes h)))
      \<and> (\<exists>k<n. (k, Store) \<in> set (trace c))"
    if "\<exists>i<n. \<exists>res. threads c ! i = Done res"
  proof -
    from that obtain i res where "i < n" "threads c ! i = Done res" by blast
    with ok [of i] have f: "scope (cores (heap c) a) = Some (ScopeRef (length (scopes h)))"
      by simp
    with inv_slotD(2) [OF s] have "scopes (heap c) = scopes h @ [null_scope]" by simp
    moreover from f inv_traceD(4) [OF t] obtain k where "(k, Store) \<in> set (trace c)" by auto
    with inv_traceD(2) [OF t this] len have "\<exists>k<n. (k, Store) \<in> set (trace c)" by auto
    ultimately show ?thesis using f by simp
  qed
  have 4: "\<forall>i j. (i, Store) \<in> set (trace c) \<and> (j, Store) \<in> set (trace c) \<longrightarrow> i = j"
    using inv_orderD(5) [OF o] by blast
  have 5: "precedes (i, Store) (i, Release) (trace c)
          \<and> precedes (i, Release) (j, Acquire) (trace c)
          \<and> ((j, Check) \<in> set (trace c) \<longrightarrow> precedes (j, Acquire) (j, Check) (trace c))
          \<and> ((j, Read) \<in> set (trace c) \<longrightarrow> precedes (j, Acquire) (j, Read) (trace c))"
    if "i \<noteq> j" "(i, Store) \<in> set (trace c)"
      "(j, Check) \<in> set (trace c) \<or> (j, Read) \<in> set (trace c)" for i j
  proof -
    from that(3) have "(j, Acquire) \<in> set (trace c)"
      using inv_orderD(3) [OF o, of j] inv_orderD(4) [OF o, of j] by (auto dest: precedes_mem)
    from inv_orderD(1) [OF o that(1,2) this]
    have a: "precedes (i, Release) (j, Acquire) (trace c)" .
    then have "(i, Release) \<in> set (trace c)" by (auto dest: precedes_mem)
    from inv_orderD(2) [OF o that(2) this] a show ?thesis
      using inv_orderD(3) [OF o, of j] inv_orderD(4) [OF o, of j] by blast
  qed
  have 6: "\<exists>sched'. \<forall>i<n. \<exists>res.
          threads (interleave a (sched @ sched') (start h n)) ! i = Done res"
  proof -
    from completion [OF inv] obtain sched' where
      "\<forall>i<length (threads c). is_Done (threads (interleave a sched' c) ! i)" ..
    then have "\<forall>i<n. \<exists>res. threads (interleave a (sched @ sched') (start h n)) ! i = Done res"
      by (simp add: len interleave_append c [symmetric] is_Done_iff)
    then show ?thesis ..
  qed
  from 1 2 3 4 5 6 show ?thesis by blast
qed


lemma two_callers_run:
  "threads (interleave 0 two_callers (start checkout_store 2)) =
     [Done (Some (ScopeRef 0)), Done (Some (ScopeRef 0))]"
  "scopes (heap (interleave 0 two_callers (start checkout_store 2))) = [null_scope]"
  "trace (interleave 0 two_callers (start checkout_store 2)) =
     [(0, Acquire), (0, Check), (0, Construct), (0, Store), (0, Read), (0, Release),
      (Suc 0, Acquire), (Suc 0, Check), (Suc 0, Read), (Suc 0, Release)]"
  by (simp_all add: two_callers_def start_def step_def Lock_def Unlock_def NewRootScope_def
      update_core_def checkout_store_def checkout_core_def null_scope_def numeral_2_eq_2)

theorem concurrent_first_callers_witness:
  "constructed checkout_store (Some 0)
   \<and> scope (cores checkout_store 0) = None
   \<and> threads (interleave 0 two_callers (start checkout_store 2)) =
       [Done (Some (ScopeRef 0)), Done (Some (ScopeRef 0))]
   \<and> scopes (heap (interleave 0 two_callers (start checkout_store 2))) = [null_scope]
   \<and> precedes (0, Store) (0, Release) (trace (interleave 0 two_callers (start checkout_store 2)))
   \<and> precedes (0, Release) (Suc 0, Acquire)
       (trace (interleave 0 two_callers (start checkout_store 2)))
   \<and> precedes (Suc 0, Acquire) (Suc 0, Read)
       (trace (interleave 0 two_callers (start checkout_store 2)))"
proof -
  let ?c = "interleave 0 two_callers (start checkout_store 2)"
  have k: "constructed checkout_store (Some 0)"
    by (rule checkout_constructed)
  have e: "scope (cores checkout_store 0) = None"
    by (simp add: checkout_store_def checkout_core_def)
  have m: "(0, Store) \<in> set (trace ?c)" "(Suc 0, Read) \<in> set (trace ?c)"
    by (simp_all add: two_callers_run)
  from concurrent_first_callers [where sched = two_callers and n = 2, OF k e refl] m
  have "precedes (0, Store) (0, Release) (trace ?c)
      \<and> precedes (0, Release) (Suc 0, Acquire) (trace ?c)
      \<and> precedes (Suc 0, Acquire) (Suc 0, Read) (trace ?c)"
    by blast
  with k e two_callers_run(1,2) show ?thesis by simp
qed

end
